theory Spec2Isabelle
  imports Main "HOL-Library.Multiset"
begin

section \<open>The index block of storage/index (block.go): data model\<close>

text \<open>
  Times and durations are integers (nanoseconds), as Go's \<open>time.Time\<close> and
  \<open>time.Duration\<close> compare. A document is an opaque value; the block never looks
  inside one. Sizes and counters are Go \<open>int64\<close>/\<open>int\<close>, modelled as \<open>int\<close>
  (no claim depends on wrap-around).
\<close>

type_synonym time = int
type_synonym document = nat
type_synonym shard = nat
type_synonym timeRange = "time \<times> time"

text \<open>
  \<open>result.ShardTimeRanges\<close> is \<open>map[uint32]xtime.Ranges\<close>: for every shard a
  collection of half-open ranges \<open>[Start, End)\<close>. The map is an association list here.
\<close>

type_synonym ShardTimeRanges = "(shard \<times> timeRange list) list"

datatype blockState = blockStateClosed | blockStateOpen | blockStateSealed

datatype error =
    errUnableToWriteBlockClosed
  | errUnableToWriteBlockSealed
  | errUnableToQueryBlockClosed
  | errUnableToBootstrapBlockClosed
  | errUnableToTickBlockClosed
  | errBlockAlreadyClosed
  | errUnableToSealBlockIllegalState blockState
  | errUnableToWriteBlockUnknownState blockState
  | errUnableToEvictBlockNotSealed blockState
  | errFulfilledRangeOutside ShardTimeRanges timeRange
  | errUnknownWriteBatchInvariant error
  | errBootstrappingSealedMutableSegment error
  | errOpenBlockHasNilActiveSegment blockState
  | BatchPartialError "(nat \<times> error) list"
  | errSegmentSealed
  | errSegmentClosed
  | errLibrary nat
  | MultiError "error list"

subsection \<open>The segment library (m3ninx), as the block uses it\<close>

text \<open>
  Modelled from the spec: the segment capability of section 6 (\<open>Reader\<close>, \<open>Size\<close>,
  \<open>Close\<close>; for a mutable segment also \<open>InsertBatch\<close>, \<open>Seal\<close>, \<open>IsSealed\<close>), whose
  code (package m3ninx) is not under src/. A segment is held by value: the spec's
  resource policy gives every segment to exactly one collection of the block.
  \<open>seg_mutable\<close> says that the dynamic type of the Go value implements
  \<open>segment.MutableSegment\<close> (the type assertion \<open>seg.(segment.MutableSegment)\<close>).
  \<open>Seal\<close> fails on a segment that is already sealed (the case block.go's AddResults
  comments on), \<open>Close\<close> and \<open>Reader\<close> fail on a closed segment.
\<close>

record segment =
  seg_offset :: int
  seg_docs :: "document list"
  seg_mutable :: bool
  seg_sealed :: bool
  seg_closed :: bool

type_synonym reader = "document list"

definition seg_Size :: "segment \<Rightarrow> int" where
  "seg_Size s = int (length (seg_docs s))"

definition seg_IsSealed :: "segment \<Rightarrow> bool" where
  "seg_IsSealed s = seg_sealed s"

definition seg_Seal :: "segment \<Rightarrow> segment \<times> error option" where
  "seg_Seal s = (if seg_sealed s then (s, Some errSegmentSealed)
                 else (s\<lparr>seg_sealed := True\<rparr>, None))"

definition seg_Close :: "segment \<Rightarrow> segment \<times> error option" where
  "seg_Close s = (if seg_closed s then (s, Some errSegmentClosed)
                  else (s\<lparr>seg_closed := True\<rparr>, None))"

definition seg_Reader :: "segment \<Rightarrow> error + reader" where
  "seg_Reader s = (if seg_closed s then Inl errSegmentClosed else Inr (seg_docs s))"

text \<open>
  \<open>mem.NewSegment(offset, opts)\<close>: a fresh, empty, unsealed in-memory segment.
\<close>

definition NewSegment :: "int \<Rightarrow> segment" where
  "NewSegment offset =
     \<lparr>seg_offset = offset, seg_docs = [], seg_mutable = True,
      seg_sealed = False, seg_closed = False\<rparr>"

text \<open>
  \<open>InsertBatch\<close>: which documents the library accepts is its own business. The
  parameter \<open>ins\<close> gives, for a segment and a batch, the documents the segment holds
  after the call and the error the call returns; the call changes nothing else.
\<close>

type_synonym insertBatchFn = "segment \<Rightarrow> document list \<Rightarrow> document list \<times> error option"

definition seg_InsertBatch :: "insertBatchFn \<Rightarrow> segment \<Rightarrow> document list \<Rightarrow> segment \<times> error option" where
  "seg_InsertBatch ins s docs =
     (case ins s docs of (docs', err) \<Rightarrow> (s\<lparr>seg_docs := docs'\<rparr>, err))"

subsection \<open>xerrors.MultiError\<close>

text \<open>
  \<open>multiErr.Add(err)\<close> drops a nil error; \<open>FinalError\<close> is nil when nothing was added.
\<close>

definition multiErr_Add :: "error list \<Rightarrow> error option \<Rightarrow> error list" where
  "multiErr_Add errs e = (case e of None \<Rightarrow> errs | Some x \<Rightarrow> errs @ [x])"

definition FinalError :: "error list \<Rightarrow> error option" where
  "FinalError errs = (if errs = [] then None else Some (MultiError errs))"

subsection \<open>activeSegment, blockShardRangesSegments, block\<close>

datatype activeSegmentState =
  mutableActiveSegmentState | rotatingActiveSegmentState | fstActiveSegmentState

text \<open>
  The struct behind \<open>*activeSegment\<close>, with the fields block.go reads and writes:
  \<open>creationTime\<close>, \<open>state\<close> (here \<open>astate\<close>), and the two nullable references
  \<open>mutableSegment\<close> and \<open>fstSegment\<close>. \<open>ptr\<close> stands for the address of the struct,
  which the swap of a rotation compares (\<open>seg == aseg\<close>): both allocation sites follow
  a \<open>segmentID.Inc()\<close>, whose value serves as the address.
\<close>

record activeSegment =
  ptr :: int
  creationTime :: time
  astate :: activeSegmentState
  mutableSegment :: "segment option"
  fstSegment :: "segment option"

text \<open>
  Modelled from the spec: the methods \<open>Size\<close>, \<open>Reader\<close> and \<open>Close\<close> of
  \<open>activeSegment\<close> (its file is not under src/). By section 3 an active segment wraps
  one segment, the mutable one in the states Mutable and Rotating and the FST one in
  the state FST; the methods are those of the wrapped segment. A variant whose
  reference is nil has no documents, nothing to close, and no reader.
\<close>

definition a_segment :: "activeSegment \<Rightarrow> segment option" where
  "a_segment a = (case astate a of
       fstActiveSegmentState \<Rightarrow> fstSegment a
     | _ \<Rightarrow> mutableSegment a)"

definition a_Size :: "activeSegment \<Rightarrow> int" where
  "a_Size a = (case a_segment a of None \<Rightarrow> 0 | Some s \<Rightarrow> seg_Size s)"

definition a_Reader :: "activeSegment \<Rightarrow> error + reader" where
  "a_Reader a = (case a_segment a of None \<Rightarrow> Inl errSegmentClosed | Some s \<Rightarrow> seg_Reader s)"

definition a_with_segment :: "activeSegment \<Rightarrow> segment \<Rightarrow> activeSegment" where
  "a_with_segment a s = (case astate a of
       fstActiveSegmentState \<Rightarrow> a\<lparr>fstSegment := Some s\<rparr>
     | _ \<Rightarrow> a\<lparr>mutableSegment := Some s\<rparr>)"

definition a_Close :: "activeSegment \<Rightarrow> activeSegment \<times> error option" where
  "a_Close a = (case a_segment a of
       None \<Rightarrow> (a, None)
     | Some s \<Rightarrow> (case seg_Close s of (s', err) \<Rightarrow> (a_with_segment a s', err)))"

record blockShardRangesSegments =
  shardTimeRanges :: ShardTimeRanges
  segments :: "segment list"

text \<open>
  The block. \<open>rotateCh\<close> is the number of signals buffered in the channel of capacity
  one; \<open>closeCtxDone\<close> says that \<open>closeCtxCancelFn\<close> has been called. Metrics, options
  and namespace metadata take no part in the claims and are left out.
\<close>

record block =
  state :: blockState
  shardRangesSegments :: "blockShardRangesSegments list"
  activeSegments :: "activeSegment list"
  segmentID :: int
  rotateCh :: nat
  closeCtxDone :: bool
  startTime :: time
  endTime :: time
  blockSize :: time

definition defaultMutableSegmentRotationSize :: int where
  "defaultMutableSegmentRotationSize = 2 ^ 16"

definition defaultMutableSegmentRotationMergeSize :: int where
  "defaultMutableSegmentRotationMergeSize = 2 ^ 20"

definition defaultMutableSegmentRotationAge :: time where
  "defaultMutableSegmentRotationAge = 30 * 1000000000"

subsection \<open>addActiveSegmentWithLock, NewBlock\<close>

text \<open>
  \<open>nowFn\<close> is the value of \<open>b.opts.ClockOptions().NowFn()()\<close> at the call.
\<close>

definition addActiveSegmentWithLock :: "time \<Rightarrow> block \<Rightarrow> block" where
  "addActiveSegmentWithLock nowFn b =
     (let postingsOffset = segmentID b + 1;
          mutableSeg = NewSegment postingsOffset
      in b\<lparr>segmentID := postingsOffset,
            activeSegments :=
              \<lparr>ptr = postingsOffset, creationTime = nowFn,
               astate = mutableActiveSegmentState,
               mutableSegment = Some mutableSeg, fstSegment = None\<rparr>
              # activeSegments b\<rparr>)"

definition NewBlock :: "time \<Rightarrow> time \<Rightarrow> time \<Rightarrow> block" where
  "NewBlock nowFn start bsize =
     addActiveSegmentWithLock nowFn
       \<lparr>state = blockStateOpen, shardRangesSegments = [], activeSegments = [],
        segmentID = 0, rotateCh = 0, closeCtxDone = False,
        startTime = start, endTime = start + bsize, blockSize = bsize\<rparr>"

subsection \<open>NeedsMutableSegmentsEvicted\<close>


subsection \<open>Seal\<close>

text \<open>
  A Go panic (here: calling a method through a nil reference) is the result \<open>None\<close>;
  a call that returns gives \<open>Some\<close> of the block it leaves and the error it returns.
\<close>

fun sealActiveSegments ::
  "error list \<Rightarrow> activeSegment list \<Rightarrow> (activeSegment list \<times> error list) option" where
  "sealActiveSegments multiErr [] = Some ([], multiErr)"
| "sealActiveSegments multiErr (seg # segs) =
     (if astate seg = mutableActiveSegmentState then
        (case mutableSegment seg of
           None \<Rightarrow> None
         | Some m \<Rightarrow>
            (case seg_Seal m of (m', err) \<Rightarrow>
               map_option (\<lambda>(segs', multiErr'). (seg\<lparr>mutableSegment := Some m'\<rparr> # segs', multiErr'))
                 (sealActiveSegments (multiErr_Add multiErr err) segs)))
      else map_option (\<lambda>(segs', multiErr'). (seg # segs', multiErr'))
             (sealActiveSegments multiErr segs))"

fun sealMutableSegments :: "error list \<Rightarrow> segment list \<Rightarrow> segment list \<times> error list" where
  "sealMutableSegments multiErr [] = ([], multiErr)"
| "sealMutableSegments multiErr (seg # segs) =
     (if seg_mutable seg then
        (case seg_Seal seg of (unsealed', err) \<Rightarrow>
           (case sealMutableSegments (multiErr_Add multiErr err) segs of
              (segs', multiErr') \<Rightarrow> (unsealed' # segs', multiErr')))
      else (case sealMutableSegments multiErr segs of
              (segs', multiErr') \<Rightarrow> (seg # segs', multiErr')))"

fun sealGroups ::
  "error list \<Rightarrow> blockShardRangesSegments list \<Rightarrow> blockShardRangesSegments list \<times> error list" where
  "sealGroups multiErr [] = ([], multiErr)"
| "sealGroups multiErr (grp # groups) =
     (case sealMutableSegments multiErr (segments grp) of
        (segs', multiErr') \<Rightarrow>
          (case sealGroups multiErr' groups of
             (groups', multiErr'') \<Rightarrow> (grp\<lparr>segments := segs'\<rparr> # groups', multiErr'')))"

definition Seal :: "block \<Rightarrow> (block \<times> error option) option" where
  "Seal b =
     (if state b \<noteq> blockStateOpen
      then Some (b, Some (errUnableToSealBlockIllegalState (state b)))
      else (case sealActiveSegments [] (activeSegments b) of
              None \<Rightarrow> None
            | Some (actives', multiErr) \<Rightarrow>
               (case sealGroups multiErr (shardRangesSegments b) of
                  (groups', multiErr') \<Rightarrow>
                    Some (b\<lparr>state := blockStateSealed, activeSegments := actives',
                            shardRangesSegments := groups'\<rparr>,
                          FinalError multiErr'))))"

definition IsSealedWithRLock :: "block \<Rightarrow> bool" where
  "IsSealedWithRLock b = (state b = blockStateSealed)"

subsection \<open>Tick, Close\<close>

record BlockTickResult =
  NumSegments :: int
  NumDocs :: int

definition Tick :: "block \<Rightarrow> BlockTickResult \<times> error option" where
  "Tick b =
     (let result = \<lparr>NumSegments = 0, NumDocs = 0\<rparr>
      in if state b = blockStateClosed then (result, Some errUnableToTickBlockClosed)
         else
           (let result = foldl (\<lambda>r seg. \<lparr>NumSegments = NumSegments r + 1,
                                         NumDocs = NumDocs r + a_Size seg\<rparr>)
                           result (activeSegments b);
                result = foldl (\<lambda>r grp.
                           foldl (\<lambda>r seg. \<lparr>NumSegments = NumSegments r + 1,
                                             NumDocs = NumDocs r + seg_Size seg\<rparr>)
                             r (segments grp))
                           result (shardRangesSegments b)
            in (result, None)))"

text \<open>
  Closing a list of segments in order, adding every error to the multi-error; the
  closed segments are returned, since the block drops its references to them.
\<close>

fun closeSegments :: "error list \<Rightarrow> segment list \<Rightarrow> segment list \<times> error list" where
  "closeSegments multiErr [] = ([], multiErr)"
| "closeSegments multiErr (seg # segs) =
     (case seg_Close seg of (seg', err) \<Rightarrow>
        (case closeSegments (multiErr_Add multiErr err) segs of
           (segs', multiErr') \<Rightarrow> (seg' # segs', multiErr')))"

fun closeActiveSegments :: "error list \<Rightarrow> activeSegment list \<Rightarrow> activeSegment list \<times> error list" where
  "closeActiveSegments multiErr [] = ([], multiErr)"
| "closeActiveSegments multiErr (seg # segs) =
     (case a_Close seg of (seg', err) \<Rightarrow>
        (case closeActiveSegments (multiErr_Add multiErr err) segs of
           (segs', multiErr') \<Rightarrow> (seg' # segs', multiErr')))"

record closeOutcome =
  closedActive :: "activeSegment list"
  closedSegments :: "segment list"

definition Close :: "block \<Rightarrow> block \<times> closeOutcome \<times> error option" where
  "Close b =
     (if state b = blockStateClosed
      then (b, \<lparr>closedActive = [], closedSegments = []\<rparr>, Some errBlockAlreadyClosed)
      else (case closeActiveSegments [] (activeSegments b) of
              (actives', multiErr) \<Rightarrow>
                (case closeSegments multiErr (concat (map segments (shardRangesSegments b))) of
                   (segs', multiErr') \<Rightarrow>
                     (b\<lparr>state := blockStateClosed, closeCtxDone := True,
                        activeSegments := [], shardRangesSegments := []\<rparr>,
                      \<lparr>closedActive = actives', closedSegments = segs'\<rparr>,
                      FinalError multiErr'))))"

subsection \<open>The write batch\<close>

text \<open>
  Modelled from the spec: the caller's \<open>WriteBatch\<close> of section 3 (its file is not
  under src/), an ordered sequence of entries, each a document with its pending
  state. The block marks entries Success or Error, and an entry that is already
  marked is left alone. \<open>MarkUnmarkedEntryError\<close> indexes the entries; an index out
  of range is a Go panic, the result \<open>None\<close>.

  block.go hands \<open>inserts.PendingDocs()\<close> to InsertBatch and uses the index of every
  per-index error, a position among the documents handed over, as the position of the
  entry to mark (\<open>MarkUnmarkedEntryError(err.Err, err.Idx)\<close>): the pending documents
  are the front of the batch. So \<open>PendingDocs\<close> brings the unmarked entries to the
  front of the batch, in their order, and returns the documents of that front:
  \<open>unmarkedFirst\<close> is the batch as the call leaves it, \<open>numPending\<close> the number of
  its unmarked entries, and position \<open>i\<close> of \<open>PendingDocs\<close> is position \<open>i\<close> of
  the batch.
\<close>

datatype entryResult = Unmarked | MarkedSuccess | MarkedError error

type_synonym writeBatch = "(document \<times> entryResult) list"

definition Len :: "writeBatch \<Rightarrow> int" where
  "Len inserts = int (length inserts)"

definition unmarkedFirst :: "writeBatch \<Rightarrow> writeBatch" where
  "unmarkedFirst inserts =
     filter (\<lambda>e. snd e = Unmarked) inserts @ filter (\<lambda>e. snd e \<noteq> Unmarked) inserts"

definition numPending :: "writeBatch \<Rightarrow> nat" where
  "numPending inserts = length (filter (\<lambda>e. snd e = Unmarked) inserts)"

definition PendingDocs :: "writeBatch \<Rightarrow> document list" where
  "PendingDocs inserts = map fst (take (numPending inserts) (unmarkedFirst inserts))"

definition MarkUnmarkedEntriesError :: "error \<Rightarrow> writeBatch \<Rightarrow> writeBatch" where
  "MarkUnmarkedEntriesError err inserts =
     map (\<lambda>e. if snd e = Unmarked then (fst e, MarkedError err) else e) inserts"

definition MarkUnmarkedEntriesSuccess :: "writeBatch \<Rightarrow> writeBatch" where
  "MarkUnmarkedEntriesSuccess inserts =
     map (\<lambda>e. if snd e = Unmarked then (fst e, MarkedSuccess) else e) inserts"

definition MarkUnmarkedEntryError :: "error \<Rightarrow> nat \<Rightarrow> writeBatch \<Rightarrow> writeBatch option" where
  "MarkUnmarkedEntryError err idx inserts =
     (if idx < length inserts
      then Some (if snd (inserts ! idx) = Unmarked
                 then inserts[idx := (fst (inserts ! idx), MarkedError err)]
                 else inserts)
      else None)"

record WriteBatchResult =
  NumSuccess :: int
  NumError :: int

subsection \<open>WriteBatch\<close>

definition writeBatchErrorInvalidState :: "blockState \<Rightarrow> error" where
  "writeBatchErrorInvalidState st = (case st of
       blockStateClosed \<Rightarrow> errUnableToWriteBlockClosed
     | blockStateSealed \<Rightarrow> errUnableToWriteBlockSealed
     | _ \<Rightarrow> errUnableToWriteBlockUnknownState st)"

definition unknownWriteBatchInvariantError :: "error \<Rightarrow> error" where
  "unknownWriteBatchInvariantError err = errUnknownWriteBatchInvariant err"

definition openBlockHasNilActiveSegmentInvariantErrorWithRLock :: "block \<Rightarrow> error" where
  "openBlockHasNilActiveSegmentInvariantErrorWithRLock b =
     errOpenBlockHasNilActiveSegment (state b)"

definition mutableActiveSegmentWithRLock :: "block \<Rightarrow> activeSegment option" where
  "mutableActiveSegmentWithRLock b =
     find (\<lambda>seg. astate seg = mutableActiveSegmentState) (activeSegments b)"

text \<open>
  The Go code changes the segment of the struct that mutableActiveSegmentWithRLock
  returned, through its pointer. With the structs held by value, the first element of
  the list in the Mutable state (the one that function returns) is replaced.
\<close>

fun updateFirst :: "('a \<Rightarrow> bool) \<Rightarrow> ('a \<Rightarrow> 'a) \<Rightarrow> 'a list \<Rightarrow> 'a list" where
  "updateFirst P f [] = []"
| "updateFirst P f (x # xs) = (if P x then f x # xs else x # updateFirst P f xs)"

definition storeMutableSegment :: "segment \<Rightarrow> block \<Rightarrow> block" where
  "storeMutableSegment mutableSeg b =
     b\<lparr>activeSegments :=
         updateFirst (\<lambda>seg. astate seg = mutableActiveSegmentState)
           (\<lambda>seg. seg\<lparr>mutableSegment := Some mutableSeg\<rparr>) (activeSegments b)\<rparr>"

definition triggerRotations :: "block \<Rightarrow> block" where
  "triggerRotations b = (if rotateCh b < 1 then b\<lparr>rotateCh := rotateCh b + 1\<rparr> else b)"

text \<open>
  The function deferred by WriteBatch once the mutable segment is known. \<open>now\<close> is
  \<open>time.Now()\<close> as \<open>time.Since\<close> reads it, \<open>mutableSeg\<close> the segment as the insert
  left it. The error of \<open>mutableSeg.Seal()\<close> is dropped, as in the source.
\<close>

definition writeBatchDeferred :: "time \<Rightarrow> time \<Rightarrow> activeSegment \<Rightarrow> segment \<Rightarrow> block \<Rightarrow> block" where
  "writeBatchDeferred now nowFn mutableActiveSeg mutableSeg b =
     (if seg_Size mutableSeg > defaultMutableSegmentRotationSize \<or>
         now - creationTime mutableActiveSeg > defaultMutableSegmentRotationAge
      then triggerRotations
             (addActiveSegmentWithLock nowFn
                (storeMutableSegment (fst (seg_Seal mutableSeg)) b))
      else b)"

fun markPartialErrors :: "(nat \<times> error) list \<Rightarrow> writeBatch \<Rightarrow> writeBatch option" where
  "markPartialErrors [] inserts = Some inserts"
| "markPartialErrors ((idx, err) # errs) inserts =
     (case MarkUnmarkedEntryError err idx inserts of
        None \<Rightarrow> None
      | Some inserts' \<Rightarrow> markPartialErrors errs inserts')"

text \<open>
  \<open>WriteBatch ins now nowFn b inserts\<close>: the block and the batch after the call, the
  \<open>WriteBatchResult\<close> and the error returned; \<open>None\<close> is a panic (no active segment
  in the Mutable state: the field of a nil \<open>*activeSegment\<close> is read; or an index of
  the partial error outside the batch).
  The two early returns mark the batch as it came; after \<open>PendingDocs\<close> the marks go
  to the batch with its unmarked entries in front.
\<close>

definition WriteBatch ::
  "insertBatchFn \<Rightarrow> time \<Rightarrow> time \<Rightarrow> block \<Rightarrow> writeBatch \<Rightarrow>
     (block \<times> writeBatch \<times> WriteBatchResult \<times> error option) option" where
  "WriteBatch ins now nowFn b inserts =
     (if state b \<noteq> blockStateOpen then
        (let err = writeBatchErrorInvalidState (state b)
         in Some (b, MarkUnmarkedEntriesError err inserts,
                  \<lparr>NumSuccess = 0, NumError = Len inserts\<rparr>, Some err))
      else
        (case mutableActiveSegmentWithRLock b of
           None \<Rightarrow> None
         | Some mutableActiveSeg \<Rightarrow>
            (case mutableSegment mutableActiveSeg of
               None \<Rightarrow>
                 (let err = openBlockHasNilActiveSegmentInvariantErrorWithRLock b
                  in Some (b, MarkUnmarkedEntriesError err inserts,
                           \<lparr>NumSuccess = 0, NumError = Len inserts\<rparr>, Some err))
             | Some mutableSeg \<Rightarrow>
                 (case seg_InsertBatch ins mutableSeg (PendingDocs inserts) of
                    (mutableSeg', insertErr) \<Rightarrow>
                      (let b' = writeBatchDeferred now nowFn mutableActiveSeg mutableSeg'
                                  (storeMutableSegment mutableSeg' b);
                           pending = unmarkedFirst inserts
                       in case insertErr of
                            None \<Rightarrow>
                              Some (b', MarkUnmarkedEntriesSuccess pending,
                                    \<lparr>NumSuccess = Len inserts, NumError = 0\<rparr>, None)
                          | Some (BatchPartialError errs) \<Rightarrow>
                              (let numErr = int (length errs)
                               in case markPartialErrors errs pending of
                                    None \<Rightarrow> None
                                  | Some inserts' \<Rightarrow>
                                      Some (b', MarkUnmarkedEntriesSuccess inserts',
                                            \<lparr>NumSuccess = Len inserts - numErr,
                                             NumError = numErr\<rparr>,
                                            Some (BatchPartialError errs)))
                          | Some err \<Rightarrow>
                              (let err' = unknownWriteBatchInvariantError err
                               in Some (b', MarkUnmarkedEntriesError err' pending,
                                        \<lparr>NumSuccess = 0, NumError = Len inserts\<rparr>,
                                        Some err')))))))"

subsection \<open>The query path: executorWithRLock, Query\<close>

text \<open>
  Modelled from the spec: the executor capability of section 6 (package m3ninx, not
  under src/): \<open>NewExecutor(readers)\<close>, \<open>Execute(query)\<close> giving an iterator or an
  error, and \<open>Close\<close> on both. A reader is the list of documents of its segment, a
  query a predicate on documents, and the iterator yields the documents of the
  readers, in order, that match the query. What the library may fail at is given
  from outside, in \<open>queryFaults\<close>: the error of \<open>Execute\<close>, the error the iterator
  reports from \<open>Err\<close> once \<open>Next\<close> is false, and the errors of the two \<open>Close\<close>
  calls.
\<close>

record executor =
  readers :: "reader list"

type_synonym query = "document \<Rightarrow> bool"

record iterator =
  it_docs :: "document list"
  it_err :: "error option"
  it_closeErr :: "error option"

record queryFaults =
  executeErr :: "error option"
  iterErr :: "error option"
  iterCloseErr :: "error option"
  execCloseErr :: "error option"

definition NewExecutor :: "reader list \<Rightarrow> executor" where
  "NewExecutor rs = \<lparr>readers = rs\<rparr>"

definition Execute :: "queryFaults \<Rightarrow> executor \<Rightarrow> query \<Rightarrow> error + iterator" where
  "Execute faults exec q =
     (case executeErr faults of
        Some err \<Rightarrow> Inl err
      | None \<Rightarrow> Inr \<lparr>it_docs = filter q (concat (readers exec)),
                      it_err = iterErr faults, it_closeErr = iterCloseErr faults\<rparr>)"

text \<open>
  The two loops of executorWithRLock. On a failing \<open>Reader()\<close> the function returns
  the error, and the deferred cleanup closes the readers acquired so far, which are
  returned with the error.
\<close>

fun activeSegmentReaders ::
  "activeSegment list \<Rightarrow> reader list \<Rightarrow> (error \<times> reader list) + reader list" where
  "activeSegmentReaders [] rs = Inr rs"
| "activeSegmentReaders (seg # segs) rs =
     (if astate seg \<noteq> fstActiveSegmentState then activeSegmentReaders segs rs
      else (case a_Reader seg of
              Inl err \<Rightarrow> Inl (err, rs)
            | Inr r \<Rightarrow> activeSegmentReaders segs (rs @ [r])))"

fun segmentReaders ::
  "segment list \<Rightarrow> reader list \<Rightarrow> (error \<times> reader list) + reader list" where
  "segmentReaders [] rs = Inr rs"
| "segmentReaders (seg # segs) rs =
     (case seg_Reader seg of
        Inl err \<Rightarrow> Inl (err, rs)
      | Inr r \<Rightarrow> segmentReaders segs (rs @ [r]))"

fun groupReaders ::
  "blockShardRangesSegments list \<Rightarrow> reader list \<Rightarrow> (error \<times> reader list) + reader list" where
  "groupReaders [] rs = Inr rs"
| "groupReaders (grp # groups) rs =
     (case segmentReaders (segments grp) rs of
        Inl e \<Rightarrow> Inl e
      | Inr rs' \<Rightarrow> groupReaders groups rs')"

definition executorWithRLock :: "block \<Rightarrow> (error \<times> reader list) + executor" where
  "executorWithRLock b =
     (case activeSegmentReaders (activeSegments b) [] of
        Inl e \<Rightarrow> Inl e
      | Inr rs \<Rightarrow>
         (case groupReaders (shardRangesSegments b) rs of
            Inl e \<Rightarrow> Inl e
          | Inr rs' \<Rightarrow> Inr (NewExecutor rs')))"

text \<open>
  \<open>index.Results\<close> is an interface of the caller: \<open>Size()\<close> and \<open>Add(d)\<close>, which
  returns whether the document was added, the new size, and an error. Query is
  written over any implementation, given by its state \<open>'r\<close> and the two methods.
\<close>

type_synonym 'r resultsAdd = "'r \<Rightarrow> document \<Rightarrow> (bool \<times> int \<times> error option) \<times> 'r"

record QueryOptions =
  Limit :: int

text \<open>
  The \<open>for iter.Next()\<close> loop over the documents the iterator yields: the results
  after the loop, \<open>brokeEarly\<close>, and the error of \<open>results.Add\<close> that ended it.
\<close>

fun queryLoop ::
  "'r resultsAdd \<Rightarrow> int \<Rightarrow> int \<Rightarrow> document list \<Rightarrow> 'r \<Rightarrow> 'r \<times> bool \<times> error option" where
  "queryLoop add limit sz [] results = (results, False, None)"
| "queryLoop add limit sz (d # ds) results =
     (if limit > 0 \<and> sz \<ge> limit then (results, True, None)
      else (case add results d of
              ((_, sz', Some err), results') \<Rightarrow> (results', False, Some err)
            | ((_, sz', None), results') \<Rightarrow> queryLoop add limit sz' ds results'))"

text \<open>
  \<open>Query\<close> returns the pair \<open>(exhaustive, err)\<close> of the source, with the caller's
  results as the call leaves them. \<open>b.newExecutorFn\<close> is \<open>executorWithRLock\<close>, as
  NewBlock sets it.
\<close>

definition Query ::
  "queryFaults \<Rightarrow> ('r \<Rightarrow> int) \<Rightarrow> 'r resultsAdd \<Rightarrow> block \<Rightarrow> query \<Rightarrow> QueryOptions \<Rightarrow> 'r
     \<Rightarrow> 'r \<times> bool \<times> error option" where
  "Query faults resSize resAdd b q opts results =
     (if state b = blockStateClosed then (results, False, Some errUnableToQueryBlockClosed)
      else (case executorWithRLock b of
              Inl (err, closed) \<Rightarrow> (results, False, Some err)
            | Inr exec \<Rightarrow>
               (case Execute faults exec q of
                  Inl err \<Rightarrow> (results, False, Some err)
                | Inr iter \<Rightarrow>
                   (case queryLoop resAdd (Limit opts) (resSize results) (it_docs iter) results of
                      (results', brokeEarly, Some err) \<Rightarrow> (results', False, Some err)
                    | (results', brokeEarly, None) \<Rightarrow>
                       (case it_err iter of
                          Some err \<Rightarrow> (results', False, Some err)
                        | None \<Rightarrow>
                           (case it_closeErr iter of
                              Some err \<Rightarrow> (results', False, Some err)
                            | None \<Rightarrow>
                               (case execCloseErr faults of
                                  Some err \<Rightarrow> (results', False, Some err)
                                | None \<Rightarrow> (results', \<not> brokeEarly, None))))))))"

subsection \<open>Shard time ranges\<close>

text \<open>
  Modelled from the spec: \<open>result.ShardTimeRanges\<close>, "a mapping shardID to set of
  time ranges" (section 3), whose methods \<open>MinMax\<close>, \<open>AddRanges\<close>, \<open>Copy\<close>,
  \<open>Subtract\<close> and \<open>IsEmpty\<close> are not under src/. \<open>MinMax\<close> is the least start and
  the greatest end over all ranges; over no range at all it is the pair of zero
  times (Go's zero value of \<open>time.Time\<close>). \<open>Subtract\<close> removes, shard by shard,
  the other mapping's ranges and keeps no empty range.
\<close>

definition allRanges :: "ShardTimeRanges \<Rightarrow> timeRange list" where
  "allRanges r = concat (map snd r)"

definition zeroTime :: time where
  "zeroTime = 0"

definition MinMax :: "ShardTimeRanges \<Rightarrow> time \<times> time" where
  "MinMax r = (case allRanges r of
       [] \<Rightarrow> (zeroTime, zeroTime)
     | x # xs \<Rightarrow> (fold min (map fst xs) (fst x), fold max (map snd xs) (snd x)))"

definition AddRanges :: "ShardTimeRanges \<Rightarrow> ShardTimeRanges \<Rightarrow> ShardTimeRanges" where
  "AddRanges r other = r @ other"

definition Copy :: "ShardTimeRanges \<Rightarrow> ShardTimeRanges" where
  "Copy r = r"

definition removeRange :: "timeRange \<Rightarrow> timeRange \<Rightarrow> timeRange list" where
  "removeRange r other =
     (if snd other \<le> fst other then [r]
      else filter (\<lambda>x. fst x < snd x)
             [(fst r, min (snd r) (fst other)), (max (fst r) (snd other), snd r)])"

definition removeRanges :: "timeRange list \<Rightarrow> timeRange list \<Rightarrow> timeRange list" where
  "removeRanges rs others = fold (\<lambda>other acc. concat (map (\<lambda>r. removeRange r other) acc)) others rs"

definition shardRanges :: "ShardTimeRanges \<Rightarrow> shard \<Rightarrow> timeRange list" where
  "shardRanges r s = concat (map snd (filter (\<lambda>p. fst p = s) r))"

definition Subtract :: "ShardTimeRanges \<Rightarrow> ShardTimeRanges \<Rightarrow> ShardTimeRanges" where
  "Subtract r other = map (\<lambda>p. (fst p, removeRanges (snd p) (shardRanges other (fst p)))) r"

definition IsEmpty :: "ShardTimeRanges \<Rightarrow> bool" where
  "IsEmpty r = list_all (\<lambda>p. snd p = []) r"

subsection \<open>AddResults\<close>

text \<open>
  \<open>result.IndexBlock\<close>, as AddResults reads it: \<open>Fulfilled()\<close> and \<open>Segments()\<close>.
\<close>

record IndexBlock =
  Fulfilled :: ShardTimeRanges
  Segments :: "segment list"

definition bootstrappingSealedMutableSegmentInvariant :: "error \<Rightarrow> error" where
  "bootstrappingSealedMutableSegmentInvariant err = errBootstrappingSealedMutableSegment err"

text \<open>
  The first loop of AddResults: on a Sealed block every incoming mutable segment is
  sealed in place, and a failing \<open>Seal\<close> adds the invariant error.
\<close>

fun sealIncoming :: "bool \<Rightarrow> error list \<Rightarrow> segment list \<Rightarrow> segment list \<times> error list" where
  "sealIncoming isSealed multiErr [] = ([], multiErr)"
| "sealIncoming isSealed multiErr (seg # segs) =
     (if seg_mutable seg \<and> isSealed then
        (case seg_Seal seg of
           (x', None) \<Rightarrow>
             (case sealIncoming isSealed multiErr segs of
                (segs', multiErr') \<Rightarrow> (x' # segs', multiErr'))
         | (x', Some err) \<Rightarrow>
             (case sealIncoming isSealed
                     (multiErr_Add multiErr (Some (bootstrappingSealedMutableSegmentInvariant err)))
                     segs of
                (segs', multiErr') \<Rightarrow> (x' # segs', multiErr')))
      else (case sealIncoming isSealed multiErr segs of
              (segs', multiErr') \<Rightarrow> (seg # segs', multiErr')))"

definition currFulfilled :: "block \<Rightarrow> ShardTimeRanges" where
  "currFulfilled b = foldl AddRanges [] (map shardTimeRanges (shardRangesSegments b))"

text \<open>
  \<open>AddResults b results\<close>: the block after the call, the segments of the replaced
  records as \<open>Close\<close> left them (the block drops them), and the error returned.
\<close>

definition AddResults :: "block \<Rightarrow> IndexBlock \<Rightarrow> block \<times> segment list \<times> error option" where
  "AddResults b results =
     (if state b = blockStateClosed then (b, [], Some errUnableToBootstrapBlockClosed)
      else
        (case MinMax (Fulfilled results) of
           (min_t, max_t) \<Rightarrow>
             if min_t < startTime b \<or> max_t > endTime b
             then (b, [], Some (errFulfilledRangeOutside (Fulfilled results)
                                  (startTime b, endTime b)))
             else
               (let isSealed = IsSealedWithRLock b
                in case sealIncoming isSealed [] (Segments results) of
                     (segs, multiErr) \<Rightarrow>
                       (let entry = \<lparr>shardTimeRanges = Fulfilled results, segments = segs\<rparr>;
                            unfulfilledBySegments =
                              Subtract (Copy (currFulfilled b)) (Fulfilled results)
                        in if \<not> IsEmpty unfulfilledBySegments
                           then (b\<lparr>shardRangesSegments := shardRangesSegments b @ [entry]\<rparr>,
                                 [], FinalError multiErr)
                           else
                             (case closeSegments multiErr
                                     (concat (map segments (shardRangesSegments b))) of
                                (closed, multiErr') \<Rightarrow>
                                  (b\<lparr>shardRangesSegments := [entry]\<rparr>, closed,
                                   FinalError multiErr'))))))"

subsection \<open>EvictActiveSegments\<close>

record EvictActiveSegmentResults =
  NumActiveSegments :: int
  NumEvictedDocs :: int

text \<open>
  The loop over one bootstrap record: non-mutable segments are kept, mutable ones are
  counted, closed and dropped. \<open>NumEvictedDocs\<close> is the field \<open>NumDocs\<close> of the
  source's result.
\<close>

fun evictMutableSegments ::
  "EvictActiveSegmentResults \<Rightarrow> error list \<Rightarrow> segment list \<Rightarrow>
     segment list \<times> EvictActiveSegmentResults \<times> error list" where
  "evictMutableSegments results multiErr [] = ([], results, multiErr)"
| "evictMutableSegments results multiErr (seg # segs) =
     (if \<not> seg_mutable seg then
        (case evictMutableSegments results multiErr segs of
           (kept, results', multiErr') \<Rightarrow> (seg # kept, results', multiErr'))
      else evictMutableSegments
             \<lparr>NumActiveSegments = NumActiveSegments results + 1,
              NumEvictedDocs = NumEvictedDocs results + seg_Size seg\<rparr>
             (multiErr_Add multiErr (snd (seg_Close seg))) segs)"

fun evictGroups ::
  "EvictActiveSegmentResults \<Rightarrow> error list \<Rightarrow> blockShardRangesSegments list \<Rightarrow>
     blockShardRangesSegments list \<times> EvictActiveSegmentResults \<times> error list" where
  "evictGroups results multiErr [] = ([], results, multiErr)"
| "evictGroups results multiErr (grp # groups) =
     (case evictMutableSegments results multiErr (segments grp) of
        (kept, results', multiErr') \<Rightarrow>
          (case evictGroups results' multiErr' groups of
             (groups', results'', multiErr'') \<Rightarrow>
               (grp\<lparr>segments := kept\<rparr> # groups', results'', multiErr'')))"

definition EvictActiveSegments :: "block \<Rightarrow> block \<times> EvictActiveSegmentResults \<times> error option" where
  "EvictActiveSegments b =
     (let results = \<lparr>NumActiveSegments = 0, NumEvictedDocs = 0\<rparr>
      in if state b \<noteq> blockStateSealed
         then (b, results, Some (errUnableToEvictBlockNotSealed (state b)))
         else
           (let results = foldl (\<lambda>r seg. \<lparr>NumActiveSegments = NumActiveSegments r + 1,
                                         NumEvictedDocs = NumEvictedDocs r + a_Size seg\<rparr>)
                            results (activeSegments b);
                multiErr = snd (closeActiveSegments [] (activeSegments b))
            in case evictGroups results multiErr (shardRangesSegments b) of
                 (groups', results', multiErr') \<Rightarrow>
                   (b\<lparr>activeSegments := [], shardRangesSegments := groups'\<rparr>,
                    results', FinalError multiErr')))"

subsection \<open>The rotation: rotateMutableActiveSegments\<close>

text \<open>
  The local variables of rotateMutableActiveSegments after its first critical section:
  the addresses of the active segments chosen and their segments, as the pass found
  them, with the two counters.
\<close>

record rotation =
  activeSegmentsToRotate :: "int list"
  segmentsToRotate :: "segment option list"
  numAccumulatedMutable :: nat
  numAccumulatedFST :: nat

definition no_rotation :: rotation where
  "no_rotation = \<lparr>activeSegmentsToRotate = [], segmentsToRotate = [],
                    numAccumulatedMutable = 0, numAccumulatedFST = 0\<rparr>"

text \<open>
  The loop over the sorted active segments. It returns the list with the chosen
  Mutable segments marked Rotating, and what was chosen; \<open>None\<close> is the panic of
  \<open>seg.mutableSegment.IsSealed()\<close> on a nil reference.
\<close>

fun selectSegments :: "int \<Rightarrow> activeSegment list \<Rightarrow> (activeSegment list \<times> rotation) option" where
  "selectSegments accumulatedSize [] = Some ([], no_rotation)"
| "selectSegments accumulatedSize (seg # segs) =
     (let sz = a_Size seg
      in if accumulatedSize + sz \<ge> defaultMutableSegmentRotationMergeSize
         then Some (seg # segs, no_rotation)
         else if astate seg = mutableActiveSegmentState then
           (case mutableSegment seg of
              None \<Rightarrow> None
            | Some m \<Rightarrow>
               if seg_IsSealed m then
                 map_option
                   (\<lambda>(segs', rot).
                      (seg\<lparr>astate := rotatingActiveSegmentState\<rparr> # segs',
                       rot\<lparr>activeSegmentsToRotate := ptr seg # activeSegmentsToRotate rot,
                           segmentsToRotate := Some m # segmentsToRotate rot,
                           numAccumulatedMutable := numAccumulatedMutable rot + 1\<rparr>))
                   (selectSegments (accumulatedSize + sz) segs)
               else map_option (\<lambda>(segs', rot). (seg # segs', rot))
                      (selectSegments accumulatedSize segs))
         else if astate seg = fstActiveSegmentState then
           map_option
             (\<lambda>(segs', rot).
                (seg # segs',
                 rot\<lparr>activeSegmentsToRotate := ptr seg # activeSegmentsToRotate rot,
                     segmentsToRotate := fstSegment seg # segmentsToRotate rot,
                     numAccumulatedFST := numAccumulatedFST rot + 1\<rparr>))
             (selectSegments (accumulatedSize + sz) segs)
         else map_option (\<lambda>(segs', rot). (seg # segs', rot))
                (selectSegments accumulatedSize segs))"

text \<open>
  \<open>sort.Slice\<close> is not stable: it leaves the active segments in some order that is
  ascending by size. \<open>sortedBySize b xs\<close> says that \<open>xs\<close> is such an order;
  \<open>sort_key a_Size\<close> gives one.
\<close>

definition sortedBySize :: "block \<Rightarrow> activeSegment list \<Rightarrow> bool" where
  "sortedBySize b xs = (mset xs = mset (activeSegments b) \<and> sorted (map a_Size xs))"

text \<open>
  The first critical section, given the order the sort left.
\<close>

definition rotateSelect :: "activeSegment list \<Rightarrow> block \<Rightarrow> (block \<times> rotation) option" where
  "rotateSelect xs b =
     map_option (\<lambda>(segs', rot). (b\<lparr>activeSegments := segs'\<rparr>, rot)) (selectSegments 0 xs)"

definition rotateEarlyExit :: "rotation \<Rightarrow> bool" where
  "rotateEarlyExit rot =
     (length (segmentsToRotate rot) = 0 \<or>
      (length (segmentsToRotate rot) = 1 \<and> numAccumulatedMutable rot = 0))"

text \<open>
  Modelled from the spec: the merger and the FST persistence capability of section 6
  (\<open>mem.Merge\<close>, \<open>TransformAndMmap\<close>, not under src/): the FST segment built from
  the chosen segments holds their documents and is read-only.
\<close>

definition mergeToFST :: "int \<Rightarrow> segment option list \<Rightarrow> segment" where
  "mergeToFST postingsOffset srcs =
     \<lparr>seg_offset = postingsOffset,
      seg_docs = concat (map (\<lambda>s. case s of None \<Rightarrow> [] | Some x \<Rightarrow> seg_docs x) srcs),
      seg_mutable = False, seg_sealed = True, seg_closed = False\<rparr>"

text \<open>
  The second critical section: every active segment whose address was chosen is
  dropped and the new FST active segment is appended. Its address is the posting
  offset minted for the merge.
\<close>

definition rotateSwap :: "time \<Rightarrow> rotation \<Rightarrow> int \<Rightarrow> block \<Rightarrow> block" where
  "rotateSwap nowFn rot postingsOffset b =
     b\<lparr>activeSegments :=
         filter (\<lambda>seg. ptr seg \<notin> set (activeSegmentsToRotate rot)) (activeSegments b)
         @ [\<lparr>ptr = postingsOffset, creationTime = nowFn, astate = fstActiveSegmentState,
             mutableSegment = None,
             fstSegment = Some (mergeToFST postingsOffset (segmentsToRotate rot))\<rparr>]\<rparr>"

subsection \<open>The block with its rotator: steps and reachable states\<close>

text \<open>
  The rotator goroutine is either waiting, or between its two critical sections: after
  the selection, or after minting the posting offset for the merge. Every operation
  holds the block's lock, so operations and the critical sections of the rotator
  interleave as whole steps.
\<close>

datatype rotatorState = Idle | Signalled | Selected rotation | Merging rotation int

record sys =
  blk :: block
  rotator :: rotatorState

text \<open>
  One step of the system: an operation of the block that returns (Query, Tick and
  NeedsMutableSegmentsEvicted change nothing and are left out), or a step of the
  rotator: it receives a signal from \<open>rotateCh\<close>, runs the selection, then either
  returns early or mints a posting offset for the merge, and after the merge either
  gives up (merge, seal or transform failed) or swaps.
\<close>

inductive step :: "sys \<Rightarrow> sys \<Rightarrow> bool" where
  step_WriteBatch:
    "WriteBatch ins now nowFn (blk s) inserts = Some (b', inserts', res, err) \<Longrightarrow>
     step s (s\<lparr>blk := b'\<rparr>)"
| step_AddResults:
    "AddResults (blk s) results = (b', released, err) \<Longrightarrow> step s (s\<lparr>blk := b'\<rparr>)"
| step_Seal:
    "Seal (blk s) = Some (b', err) \<Longrightarrow> step s (s\<lparr>blk := b'\<rparr>)"
| step_EvictActiveSegments:
    "EvictActiveSegments (blk s) = (b', evicted, err) \<Longrightarrow> step s (s\<lparr>blk := b'\<rparr>)"
| step_Close:
    "Close (blk s) = (b', out, err) \<Longrightarrow> step s (s\<lparr>blk := b'\<rparr>)"
| step_rotate_signal:
    "rotator s = Idle \<Longrightarrow> rotateCh (blk s) > 0 \<Longrightarrow>
     step s \<lparr>blk = (blk s)\<lparr>rotateCh := rotateCh (blk s) - 1\<rparr>, rotator = Signalled\<rparr>"
| step_rotate_select:
    "rotator s = Signalled \<Longrightarrow> sortedBySize (blk s) xs \<Longrightarrow>
     rotateSelect xs (blk s) = Some (b', rot) \<Longrightarrow>
     step s \<lparr>blk = b', rotator = Selected rot\<rparr>"
| step_rotate_early_exit:
    "rotator s = Selected rot \<Longrightarrow> rotateEarlyExit rot \<Longrightarrow> step s (s\<lparr>rotator := Idle\<rparr>)"
| step_rotate_mint:
    "rotator s = Selected rot \<Longrightarrow> \<not> rotateEarlyExit rot \<Longrightarrow>
     step s \<lparr>blk = (blk s)\<lparr>segmentID := segmentID (blk s) + 1\<rparr>,
             rotator = Merging rot (segmentID (blk s) + 1)\<rparr>"
| step_rotate_failed:
    "rotator s = Merging rot postingsOffset \<Longrightarrow> step s (s\<lparr>rotator := Idle\<rparr>)"
| step_rotate_swap:
    "rotator s = Merging rot postingsOffset \<Longrightarrow>
     step s \<lparr>blk = rotateSwap nowFn rot postingsOffset (blk s), rotator = Idle\<rparr>"

inductive reachable :: "sys \<Rightarrow> bool" where
  reachable_NewBlock: "reachable \<lparr>blk = NewBlock nowFn start bsize, rotator = Idle\<rparr>"
| reachable_step: "reachable s \<Longrightarrow> step s s' \<Longrightarrow> reachable s'"

section \<open>Notions used to state the properties\<close>

subsection \<open>Sealed copies\<close>

definition sealed :: "segment \<Rightarrow> segment" where
  "sealed s = s\<lparr>seg_sealed := True\<rparr>"

definition sealedActive :: "activeSegment \<Rightarrow> activeSegment" where
  "sealedActive a =
     (if astate a = mutableActiveSegmentState
      then a\<lparr>mutableSegment := map_option sealed (mutableSegment a)\<rparr> else a)"

definition sealedGroup :: "blockShardRangesSegments \<Rightarrow> blockShardRangesSegments" where
  "sealedGroup g = g\<lparr>segments := map (\<lambda>s. if seg_mutable s then sealed s else s) (segments g)\<rparr>"

text \<open>
  An active segment in the Mutable state has its mutable segment (no nil reference).
\<close>

definition mutable_present :: "activeSegment \<Rightarrow> bool" where
  "mutable_present a = (astate a = mutableActiveSegmentState \<longrightarrow> mutableSegment a \<noteq> None)"

subsection \<open>The time points of shard time ranges\<close>

text \<open>
  The set of pairs (shard, time) a mapping covers, each range being half-open.
  \<open>wf_ranges\<close>: no stored range is empty, as \<open>xtime.Ranges\<close> keeps it.
  \<open>within_window\<close>: every covered time lies in \<open>[startTime, endTime)\<close>.
\<close>

definition range_points :: "timeRange \<Rightarrow> time set" where
  "range_points x = {t. fst x \<le> t \<and> t < snd x}"

definition ranges_points :: "timeRange list \<Rightarrow> time set" where
  "ranges_points rs = (\<Union>x \<in> set rs. range_points x)"

definition str_points :: "ShardTimeRanges \<Rightarrow> (shard \<times> time) set" where
  "str_points r = {(s, t). \<exists>p \<in> set r. fst p = s \<and> t \<in> ranges_points (snd p)}"

definition wf_ranges :: "ShardTimeRanges \<Rightarrow> bool" where
  "wf_ranges r = (\<forall>x \<in> set (allRanges r). fst x < snd x)"

definition within_window :: "block \<Rightarrow> ShardTimeRanges \<Rightarrow> bool" where
  "within_window b r = (\<forall>p \<in> str_points r. startTime b \<le> snd p \<and> snd p < endTime b)"

text \<open>
  The segments of an incoming record as AddResults stores them: on a Sealed block the
  mutable ones are sealed.
\<close>

definition incoming :: "block \<Rightarrow> IndexBlock \<Rightarrow> segment list" where
  "incoming b results =
     map (\<lambda>s. if seg_mutable s \<and> state b = blockStateSealed then sealed s else s)
       (Segments results)"

definition closed :: "segment \<Rightarrow> segment" where
  "closed s = s\<lparr>seg_closed := True\<rparr>"

subsection \<open>The course of the result loop\<close>

text \<open>
  What one \<open>results.Add\<close> leaves, the size it returns and its error; the value of
  the variable \<open>size\<close> of Query at the moment each document of the iterator would
  be reached if no document were held back; and the test that ends the loop early.
\<close>

definition addResults :: "'r resultsAdd \<Rightarrow> 'r \<Rightarrow> document \<Rightarrow> 'r" where
  "addResults add r d = snd (add r d)"

definition addSize :: "'r resultsAdd \<Rightarrow> 'r \<Rightarrow> document \<Rightarrow> int" where
  "addSize add r d = fst (snd (fst (add r d)))"

definition addErr :: "'r resultsAdd \<Rightarrow> 'r \<Rightarrow> document \<Rightarrow> error option" where
  "addErr add r d = snd (snd (fst (add r d)))"

fun sizesBefore :: "'r resultsAdd \<Rightarrow> int \<Rightarrow> 'r \<Rightarrow> document list \<Rightarrow> int list" where
  "sizesBefore add sz r [] = []"
| "sizesBefore add sz r (d # ds) = sz # sizesBefore add (addSize add r d) (addResults add r d) ds"

definition limitReached :: "int \<Rightarrow> int \<Rightarrow> bool" where
  "limitReached limit sz = (limit > 0 \<and> sz \<ge> limit)"

text \<open>
  The number of documents the loop takes: those in front of the first document at
  which the limit is reached.
\<close>

definition consumed :: "'r resultsAdd \<Rightarrow> int \<Rightarrow> int \<Rightarrow> 'r \<Rightarrow> document list \<Rightarrow> nat" where
  "consumed add limit sz r ds =
     length (takeWhile (\<lambda>s. \<not> limitReached limit s) (sizesBefore add sz r ds))"

subsection \<open>The invariant of the block with its rotator\<close>

text \<open>
  An active segment that can take writes: in the Mutable state, its segment not sealed.
\<close>

definition unsealedMutable :: "activeSegment \<Rightarrow> bool" where
  "unsealedMutable a =
     (astate a = mutableActiveSegmentState \<and>
      (case mutableSegment a of None \<Rightarrow> False | Some m \<Rightarrow> \<not> seg_sealed m))"

text \<open>
  The addresses the rotator holds between its critical sections, and the posting
  offset it has minted for the FST segment to come.
\<close>

fun pending :: "rotatorState \<Rightarrow> int list" where
  "pending (Selected rot) = activeSegmentsToRotate rot"
| "pending (Merging rot postingsOffset) = activeSegmentsToRotate rot"
| "pending _ = []"

fun minted :: "rotatorState \<Rightarrow> int list" where
  "minted (Merging rot postingsOffset) = [postingsOffset]"
| "minted _ = []"

text \<open>
  The invariant, for a block \<open>b\<close>, the addresses \<open>ptrs\<close> held by the rotator and the
  offsets \<open>offs\<close> it has minted: an Open block has a segment that takes writes;
  addresses are distinct and were minted from \<open>segmentID\<close>; no address held by the
  rotator belongs to a segment in the Mutable state; a minted offset is no address of
  an active segment yet.
\<close>

definition binv :: "int list \<Rightarrow> int list \<Rightarrow> block \<Rightarrow> bool" where
  "binv ptrs offs b =
     ((state b = blockStateOpen \<longrightarrow> list_ex unsealedMutable (activeSegments b)) \<and>
      list_all (\<lambda>a. ptr a \<le> segmentID b) (activeSegments b) \<and>
      distinct (map ptr (activeSegments b)) \<and>
      list_all (\<lambda>a. ptr a \<in> set ptrs \<longrightarrow> astate a \<noteq> mutableActiveSegmentState)
        (activeSegments b) \<and>
      list_all (\<lambda>p. p \<le> segmentID b) ptrs \<and>
      list_all (\<lambda>p. p \<le> segmentID b \<and> p \<notin> ptr ` set (activeSegments b)) offs)"

definition inv :: "sys \<Rightarrow> bool" where
  "inv s = binv (pending (rotator s)) (minted (rotator s)) (blk s)"

subsection \<open>Example blocks\<close>

definition fst_block_example :: block where
  "fst_block_example =
     \<lparr>state = blockStateSealed, shardRangesSegments = [],
      activeSegments =
        [\<lparr>ptr = 2, creationTime = 5, astate = fstActiveSegmentState, mutableSegment = None,
          fstSegment = Some \<lparr>seg_offset = 2, seg_docs = [7], seg_mutable = False,
                              seg_sealed = True, seg_closed = False\<rparr>\<rparr>],
      segmentID = 2, rotateCh = 0, closeCtxDone = False,
      startTime = 1000, endTime = 4600, blockSize = 3600\<rparr>"

definition open_block_example :: block where
  "open_block_example = NewBlock 0 1000 3600"

text \<open>
  Two behaviours of the library's InsertBatch: one accepts every document, one rejects
  the document at index 2 of a batch of five (scenario S4 of the spec).
\<close>

definition ins_all :: insertBatchFn where
  "ins_all s docs = (seg_docs s @ docs, None)"

definition ins_reject_2 :: insertBatchFn where
  "ins_reject_2 s docs =
     (seg_docs s @ take 2 docs @ drop 3 docs, Some (BatchPartialError [(2, errLibrary 1)]))"

definition batch5 :: writeBatch where
  "batch5 = [(10, Unmarked), (11, Unmarked), (12, Unmarked), (13, Unmarked), (14, Unmarked)]"

definition closed_block_example :: block where
  "closed_block_example = fst (Close open_block_example)"

text \<open>
  Bootstrap records for a block with the window [1000, 4600): scenarios S5 and S6 of
  the spec, and a record reaching past the end of the window.
\<close>

definition segment_S1 :: segment where
  "segment_S1 = \<lparr>seg_offset = 0, seg_docs = [1, 2, 3], seg_mutable = False,
                  seg_sealed = True, seg_closed = False\<rparr>"

definition segment_S2 :: segment where
  "segment_S2 = \<lparr>seg_offset = 0, seg_docs = [4, 5], seg_mutable = True,
                  seg_sealed = False, seg_closed = False\<rparr>"

definition record_A_1000_2000 :: IndexBlock where
  "record_A_1000_2000 = \<lparr>Fulfilled = [(1, [(1000, 2000)])], Segments = [segment_S1]\<rparr>"

definition record_A_1000_4600 :: IndexBlock where
  "record_A_1000_4600 = \<lparr>Fulfilled = [(1, [(1000, 4600)])], Segments = [segment_S2]\<rparr>"

definition record_B_1000_2000 :: IndexBlock where
  "record_B_1000_2000 = \<lparr>Fulfilled = [(2, [(1000, 2000)])], Segments = [segment_S2]\<rparr>"

definition record_outside :: IndexBlock where
  "record_outside = \<lparr>Fulfilled = [(2, [(1000, 4601)])], Segments = [segment_S2]\<rparr>"

definition bootstrapped_block_example :: block where
  "bootstrapped_block_example = fst (AddResults open_block_example record_A_1000_2000)"

text \<open>
  A results sink that keeps the documents in a list and never fails, one that refuses
  every document, and a library that never fails.
\<close>

definition list_Size :: "document list \<Rightarrow> int" where
  "list_Size r = int (length r)"

definition list_Add :: "document list resultsAdd" where
  "list_Add r d = ((True, int (length r) + 1, None), r @ [d])"

definition failing_Add :: "document list resultsAdd" where
  "failing_Add r d = ((False, int (length r), Some (errLibrary 2)), r)"

definition no_faults :: queryFaults where
  "no_faults = \<lparr>executeErr = None, iterErr = None, iterCloseErr = None, execCloseErr = None\<rparr>"

text \<open>
  The block of scenario S1 after its first write: two documents written to a fresh
  block and acknowledged.
\<close>

definition written_block_example :: block where
  "written_block_example =
     \<lparr>state = blockStateOpen, shardRangesSegments = [],
      activeSegments =
        [\<lparr>ptr = 1, creationTime = 0, astate = mutableActiveSegmentState,
          mutableSegment = Some \<lparr>seg_offset = 1, seg_docs = [1, 2], seg_mutable = True,
                                  seg_sealed = False, seg_closed = False\<rparr>,
          fstSegment = None\<rparr>],
      segmentID = 1, rotateCh = 0, closeCtxDone = False,
      startTime = 1000, endTime = 4600, blockSize = 3600\<rparr>"

text \<open>
  A Sealed block whose one FST active segment holds ten documents (scenario S3).
\<close>

definition ten_docs_block_example :: block where
  "ten_docs_block_example =
     \<lparr>state = blockStateSealed, shardRangesSegments = [],
      activeSegments =
        [\<lparr>ptr = 2, creationTime = 5, astate = fstActiveSegmentState, mutableSegment = None,
          fstSegment = Some \<lparr>seg_offset = 2, seg_docs = [1, 2, 3, 4, 5, 6, 7, 8, 9, 10],
                              seg_mutable = False, seg_sealed = True, seg_closed = False\<rparr>\<rparr>],
      segmentID = 2, rotateCh = 0, closeCtxDone = False,
      startTime = 1000, endTime = 4600, blockSize = 3600\<rparr>"

text \<open>
  The fresh block of the examples after one write that is older than the rotation
  age: the segment written to is sealed and a new one stands in front of it.
\<close>

definition rotated_block_example :: block where
  "rotated_block_example =
     \<lparr>state = blockStateOpen, shardRangesSegments = [],
      activeSegments =
        [\<lparr>ptr = 2, creationTime = 50, astate = mutableActiveSegmentState,
          mutableSegment = Some \<lparr>seg_offset = 2, seg_docs = [], seg_mutable = True,
                                  seg_sealed = False, seg_closed = False\<rparr>,
          fstSegment = None\<rparr>,
         \<lparr>ptr = 1, creationTime = 0, astate = mutableActiveSegmentState,
          mutableSegment = Some \<lparr>seg_offset = 1, seg_docs = [1], seg_mutable = True,
                                  seg_sealed = True, seg_closed = False\<rparr>,
          fstSegment = None\<rparr>],
      segmentID = 2, rotateCh = 1, closeCtxDone = False,
      startTime = 1000, endTime = 4600, blockSize = 3600\<rparr>"

text \<open>
  A batch whose first entry an earlier attempt has marked, and a library that rejects
  the first document it is handed.
\<close>

definition batch_with_marked :: writeBatch where
  "batch_with_marked = [(10, MarkedSuccess), (11, Unmarked), (12, Unmarked)]"

definition ins_reject_0 :: insertBatchFn where
  "ins_reject_0 s docs = (seg_docs s @ drop 1 docs, Some (BatchPartialError [(0, errLibrary 1)]))"

text \<open>
  A bootstrap record that fulfils no range.
\<close>

definition record_no_ranges :: IndexBlock where
  "record_no_ranges = \<lparr>Fulfilled = [], Segments = [segment_S2]\<rparr>"




section \<open>Properties\<close>

subsection \<open>Sealing\<close>

lemma fst_seg_Seal: "fst (seg_Seal s) = sealed s"
  by (cases s) (simp add: seg_Seal_def sealed_def)

lemma sealActiveSegments_map:
  "list_all mutable_present segs \<Longrightarrow>
   \<exists>multiErr'. sealActiveSegments multiErr segs = Some (map sealedActive segs, multiErr')"
proof (induction segs arbitrary: multiErr)
  case Nil
  then show ?case by simp
next
  case (Cons seg segs)
  from Cons.prems have rest: "list_all mutable_present segs" by simp
  show ?case
  proof (cases "astate seg = mutableActiveSegmentState")
    case True
    with Cons.prems obtain m where m: "mutableSegment seg = Some m"
      by (auto simp: mutable_present_def)
    obtain m' err where s: "seg_Seal m = (m', err)" by (cases "seg_Seal m")
    then have m': "m' = sealed m" using fst_seg_Seal [of m] by simp
    from Cons.IH [OF rest, of "multiErr_Add multiErr err"] obtain e
      where "sealActiveSegments (multiErr_Add multiErr err) segs = Some (map sealedActive segs, e)"
      by blast
    with True m s m' show ?thesis by (simp add: sealedActive_def)
  next
    case False
    from Cons.IH [OF rest, of multiErr] obtain e
      where "sealActiveSegments multiErr segs = Some (map sealedActive segs, e)" by blast
    with False show ?thesis by (simp add: sealedActive_def)
  qed
qed

lemma sealMutableSegments_map:
  "fst (sealMutableSegments multiErr segs) = map (\<lambda>s. if seg_mutable s then sealed s else s) segs"
proof (induction segs arbitrary: multiErr)
  case Nil
  then show ?case by simp
next
  case (Cons seg segs)
  show ?case
    using Cons.IH [of multiErr] Cons.IH [of "multiErr_Add multiErr (snd (seg_Seal seg))"]
      fst_seg_Seal [of seg]
    by (auto split: prod.splits)
qed

lemma sealGroups_map: "fst (sealGroups multiErr groups) = map sealedGroup groups"
proof (induction groups arbitrary: multiErr)
  case Nil
  then show ?case by simp
next
  case (Cons grp groups)
  obtain segs' e where s: "sealMutableSegments multiErr (segments grp) = (segs', e)"
    by (cases "sealMutableSegments multiErr (segments grp)")
  then have "segs' = map (\<lambda>s. if seg_mutable s then sealed s else s) (segments grp)"
    using sealMutableSegments_map [of multiErr "segments grp"] by simp
  with s Cons.IH [of e] show ?case
    by (auto simp: sealedGroup_def split: prod.splits)
qed

lemma sealedActive_sealed:
  "astate (sealedActive a) = mutableActiveSegmentState \<Longrightarrow>
   mutableSegment (sealedActive a) = Some m \<Longrightarrow> seg_sealed m"
  by (auto simp: sealedActive_def sealed_def split: if_splits)

lemma sealedGroup_sealed:
  "s \<in> set (segments (sealedGroup g)) \<Longrightarrow> seg_mutable s \<Longrightarrow> seg_sealed s"
  by (auto simp: sealedGroup_def sealed_def split: if_splits)

text \<open>
  Claim C6. Seal on a block that is not Open changes nothing and returns the
  illegal-state error naming the block's state; this covers a second Seal, since the
  first one leaves the block Sealed. Seal on an Open block (whose Mutable active
  segments hold their segment) returns with the state Sealed, and the block it leaves
  is the old one with every active segment in the Mutable state sealed and every
  mutable segment of every bootstrap record sealed: afterwards each of them reports
  sealed.
\<close>

theorem Seal_illegal_state_or_seal_all:
  "(state b \<noteq> blockStateOpen \<longrightarrow>
      Seal b = Some (b, Some (errUnableToSealBlockIllegalState (state b)))) \<and>
   (state b = blockStateOpen \<and> list_all mutable_present (activeSegments b) \<longrightarrow>
      (\<exists>b' err. Seal b = Some (b', err) \<and>
         b' = b\<lparr>state := blockStateSealed,
                 activeSegments := map sealedActive (activeSegments b),
                 shardRangesSegments := map sealedGroup (shardRangesSegments b)\<rparr> \<and>
         (\<forall>a \<in> set (activeSegments b'). astate a = mutableActiveSegmentState \<longrightarrow>
            (\<exists>m. mutableSegment a = Some m \<and> seg_sealed m)) \<and>
         (\<forall>g \<in> set (shardRangesSegments b'). \<forall>s \<in> set (segments g).
            seg_mutable s \<longrightarrow> seg_sealed s) \<and>
         Seal b' = Some (b', Some (errUnableToSealBlockIllegalState blockStateSealed))))"
proof (intro conjI impI)
  assume "state b \<noteq> blockStateOpen"
  then show "Seal b = Some (b, Some (errUnableToSealBlockIllegalState (state b)))"
    by (simp add: Seal_def)
next
  assume a: "state b = blockStateOpen \<and> list_all mutable_present (activeSegments b)"
  then obtain e1 where
    act: "sealActiveSegments [] (activeSegments b) = Some (map sealedActive (activeSegments b), e1)"
    using sealActiveSegments_map [of "activeSegments b" "[]"] by blast
  obtain gs e2 where grp: "sealGroups e1 (shardRangesSegments b) = (gs, e2)"
    by (cases "sealGroups e1 (shardRangesSegments b)")
  then have gs: "gs = map sealedGroup (shardRangesSegments b)"
    using sealGroups_map [of e1 "shardRangesSegments b"] by simp
  define b' where "b' = b\<lparr>state := blockStateSealed,
      activeSegments := map sealedActive (activeSegments b),
      shardRangesSegments := map sealedGroup (shardRangesSegments b)\<rparr>"
  have run: "Seal b = Some (b', FinalError e2)"
    using a act grp gs by (simp add: Seal_def b'_def)
  have present: "\<forall>a \<in> set (activeSegments b'). astate a = mutableActiveSegmentState \<longrightarrow>
      (\<exists>m. mutableSegment a = Some m \<and> seg_sealed m)"
  proof (intro ballI impI)
    fix x assume x: "x \<in> set (activeSegments b')" and mu: "astate x = mutableActiveSegmentState"
    from x obtain y where y: "y \<in> set (activeSegments b)" and xy: "x = sealedActive y"
      by (auto simp: b'_def)
    from mu xy have ymu: "astate y = mutableActiveSegmentState"
      by (simp add: sealedActive_def split: if_splits)
    from a y have "mutable_present y" by (simp add: list_all_iff)
    with ymu obtain m0 where "mutableSegment y = Some m0" by (auto simp: mutable_present_def)
    with ymu xy have "mutableSegment x = Some (sealed m0)" by (simp add: sealedActive_def)
    then show "\<exists>m. mutableSegment x = Some m \<and> seg_sealed m" by (simp add: sealed_def)
  qed
  have boot: "\<forall>g \<in> set (shardRangesSegments b'). \<forall>s \<in> set (segments g).
      seg_mutable s \<longrightarrow> seg_sealed s"
    using sealedGroup_sealed by (auto simp: b'_def)
  have again: "Seal b' = Some (b', Some (errUnableToSealBlockIllegalState blockStateSealed))"
    by (simp add: Seal_def b'_def)
  from run present boot again show "\<exists>b' err. Seal b = Some (b', err) \<and>
         b' = b\<lparr>state := blockStateSealed,
                 activeSegments := map sealedActive (activeSegments b),
                 shardRangesSegments := map sealedGroup (shardRangesSegments b)\<rparr> \<and>
         (\<forall>a \<in> set (activeSegments b'). astate a = mutableActiveSegmentState \<longrightarrow>
            (\<exists>m. mutableSegment a = Some m \<and> seg_sealed m)) \<and>
         (\<forall>g \<in> set (shardRangesSegments b'). \<forall>s \<in> set (segments g).
            seg_mutable s \<longrightarrow> seg_sealed s) \<and>
         Seal b' = Some (b', Some (errUnableToSealBlockIllegalState blockStateSealed))"
    unfolding b'_def by blast
qed

theorem Seal_illegal_state_or_seal_all_witness:
  "state (NewBlock 0 1000 3600) = blockStateOpen \<and>
   list_all mutable_present (activeSegments (NewBlock 0 1000 3600)) \<and>
   (\<exists>b'. Seal (NewBlock 0 1000 3600) = Some (b', None) \<and>
      state b' = blockStateSealed \<and>
      map (map_option seg_sealed \<circ> mutableSegment) (activeSegments b') = [Some True] \<and>
      state b' \<noteq> blockStateOpen \<and>
      Seal b' = Some (b', Some (errUnableToSealBlockIllegalState blockStateSealed)))"
proof -
  let ?b = "NewBlock 0 1000 3600"
  have h: "state ?b = blockStateOpen \<and> list_all mutable_present (activeSegments ?b)"
    by (simp add: NewBlock_def addActiveSegmentWithLock_def mutable_present_def Let_def)
  have run: "Seal ?b = Some (?b\<lparr>state := blockStateSealed,
                 activeSegments := map sealedActive (activeSegments ?b),
                 shardRangesSegments := map sealedGroup (shardRangesSegments ?b)\<rparr>, None)"
    by (simp add: Seal_def NewBlock_def addActiveSegmentWithLock_def Let_def NewSegment_def
        seg_Seal_def multiErr_Add_def FinalError_def sealedActive_def sealed_def)
  from Seal_illegal_state_or_seal_all [of ?b] h run show ?thesis
    by (auto simp: NewBlock_def addActiveSegmentWithLock_def Let_def NewSegment_def
        sealedActive_def sealed_def)
qed

subsection \<open>NeedsMutableSegmentsEvicted\<close>








subsection \<open>WriteBatch\<close>

lemmas ex_defs = open_block_example_def NewBlock_def addActiveSegmentWithLock_def Let_def
  NewSegment_def

lemmas batch_defs = PendingDocs_def numPending_def unmarkedFirst_def

lemma writeBatchErrorInvalidState_cases:
  "writeBatchErrorInvalidState blockStateSealed = errUnableToWriteBlockSealed"
  "writeBatchErrorInvalidState blockStateClosed = errUnableToWriteBlockClosed"
  by (simp_all add: writeBatchErrorInvalidState_def)

lemma MarkUnmarkedEntriesError_nth:
  "i < length inserts \<Longrightarrow>
   MarkUnmarkedEntriesError err inserts ! i =
     (if snd (inserts ! i) = Unmarked then (fst (inserts ! i), MarkedError err) else inserts ! i)"
  by (simp add: MarkUnmarkedEntriesError_def)

lemma MarkUnmarkedEntriesSuccess_nth:
  "i < length inserts \<Longrightarrow>
   MarkUnmarkedEntriesSuccess inserts ! i =
     (if snd (inserts ! i) = Unmarked then (fst (inserts ! i), MarkedSuccess) else inserts ! i)"
  by (simp add: MarkUnmarkedEntriesSuccess_def)

text \<open>
  Claim C5. WriteBatch on a block that is not Open leaves the block as it is and
  returns \<open>NumError\<close> equal to the length of the batch together with the
  invalid-state error of the state: the sealed error on a Sealed block, the closed
  error on a Closed one. Every entry that was unmarked is marked with that error, and
  the call marks no entry Success: an entry that is Success afterwards was Success
  before the call (marked entries are left alone).
\<close>

theorem WriteBatch_not_open:
  "state b \<noteq> blockStateOpen \<Longrightarrow>
   \<exists>err inserts'.
     WriteBatch ins now nowFn b inserts =
       Some (b, inserts', \<lparr>NumSuccess = 0, NumError = int (length inserts)\<rparr>, Some err) \<and>
     (state b = blockStateSealed \<longrightarrow> err = errUnableToWriteBlockSealed) \<and>
     (state b = blockStateClosed \<longrightarrow> err = errUnableToWriteBlockClosed) \<and>
     length inserts' = length inserts \<and>
     (\<forall>i < length inserts.
        fst (inserts' ! i) = fst (inserts ! i) \<and>
        (snd (inserts ! i) = Unmarked \<longrightarrow> snd (inserts' ! i) = MarkedError err) \<and>
        (snd (inserts ! i) \<noteq> Unmarked \<longrightarrow> snd (inserts' ! i) = snd (inserts ! i)) \<and>
        (snd (inserts' ! i) = MarkedSuccess \<longrightarrow> snd (inserts ! i) = MarkedSuccess))"
proof -
  assume st: "state b \<noteq> blockStateOpen"
  define err where "err = writeBatchErrorInvalidState (state b)"
  define inserts' where "inserts' = MarkUnmarkedEntriesError err inserts"
  have run: "WriteBatch ins now nowFn b inserts =
       Some (b, inserts', \<lparr>NumSuccess = 0, NumError = int (length inserts)\<rparr>, Some err)"
    using st by (simp add: WriteBatch_def err_def inserts'_def Len_def Let_def)
  have e1: "state b = blockStateSealed \<longrightarrow> err = errUnableToWriteBlockSealed"
    and e2: "state b = blockStateClosed \<longrightarrow> err = errUnableToWriteBlockClosed"
    by (simp_all add: err_def writeBatchErrorInvalidState_cases)
  have len: "length inserts' = length inserts"
    by (simp add: inserts'_def MarkUnmarkedEntriesError_def)
  have each: "\<forall>i < length inserts.
        fst (inserts' ! i) = fst (inserts ! i) \<and>
        (snd (inserts ! i) = Unmarked \<longrightarrow> snd (inserts' ! i) = MarkedError err) \<and>
        (snd (inserts ! i) \<noteq> Unmarked \<longrightarrow> snd (inserts' ! i) = snd (inserts ! i)) \<and>
        (snd (inserts' ! i) = MarkedSuccess \<longrightarrow> snd (inserts ! i) = MarkedSuccess)"
    by (simp add: inserts'_def MarkUnmarkedEntriesError_nth)
  from run e1 e2 len each show ?thesis by blast
qed

lemma MarkUnmarkedEntryError_Some:
  "idx < length inserts \<Longrightarrow>
   \<exists>inserts'. MarkUnmarkedEntryError err idx inserts = Some inserts' \<and>
     length inserts' = length inserts \<and>
     (\<forall>i < length inserts. inserts' ! i =
        (if i = idx \<and> snd (inserts ! i) = Unmarked then (fst (inserts ! i), MarkedError err)
         else inserts ! i))"
  by (auto simp: MarkUnmarkedEntryError_def nth_list_update)

lemma markPartialErrors_Some:
  "\<forall>p \<in> set errs. fst p < length inserts \<Longrightarrow>
   \<exists>inserts'. markPartialErrors errs inserts = Some inserts' \<and>
     length inserts' = length inserts \<and>
     (\<forall>i < length inserts. inserts' ! i =
        (if snd (inserts ! i) = Unmarked
         then (case map_of errs i of
                 None \<Rightarrow> inserts ! i
               | Some e \<Rightarrow> (fst (inserts ! i), MarkedError e))
         else inserts ! i))"
proof (induction errs arbitrary: inserts)
  case Nil
  then show ?case by simp
next
  case (Cons p errs)
  obtain idx err where p: "p = (idx, err)" by (cases p)
  with Cons.prems have idx: "idx < length inserts" by simp
  from MarkUnmarkedEntryError_Some [OF idx, of err] obtain ins1 where
    m: "MarkUnmarkedEntryError err idx inserts = Some ins1" and
    l1: "length ins1 = length inserts" and
    n1: "\<forall>i < length inserts. ins1 ! i =
        (if i = idx \<and> snd (inserts ! i) = Unmarked then (fst (inserts ! i), MarkedError err)
         else inserts ! i)" by blast
  from Cons.prems l1 have "\<forall>p \<in> set errs. fst p < length ins1" by simp
  from Cons.IH [OF this] obtain ins2 where
    r: "markPartialErrors errs ins1 = Some ins2" and
    l2: "length ins2 = length ins1" and
    n2: "\<forall>i < length ins1. ins2 ! i =
        (if snd (ins1 ! i) = Unmarked
         then (case map_of errs i of
                 None \<Rightarrow> ins1 ! i
               | Some e \<Rightarrow> (fst (ins1 ! i), MarkedError e))
         else ins1 ! i)" by blast
  have run: "markPartialErrors (p # errs) inserts = Some ins2"
    using p m r by simp
  have "\<forall>i < length inserts. ins2 ! i =
        (if snd (inserts ! i) = Unmarked
         then (case map_of (p # errs) i of
                 None \<Rightarrow> inserts ! i
               | Some e \<Rightarrow> (fst (inserts ! i), MarkedError e))
         else inserts ! i)"
  proof (intro allI impI)
    fix i assume i: "i < length inserts"
    with n1 have a: "ins1 ! i =
        (if i = idx \<and> snd (inserts ! i) = Unmarked then (fst (inserts ! i), MarkedError err)
         else inserts ! i)" by blast
    from i l1 n2 have b: "ins2 ! i =
        (if snd (ins1 ! i) = Unmarked
         then (case map_of errs i of
                 None \<Rightarrow> ins1 ! i
               | Some e \<Rightarrow> (fst (ins1 ! i), MarkedError e))
         else ins1 ! i)" by simp
    show "ins2 ! i =
        (if snd (inserts ! i) = Unmarked
         then (case map_of (p # errs) i of
                 None \<Rightarrow> inserts ! i
               | Some e \<Rightarrow> (fst (inserts ! i), MarkedError e))
         else inserts ! i)"
      using a b p by (auto split: option.splits)
  qed
  with run l1 l2 show ?case by auto
qed

theorem WriteBatch_not_open_witness:
  "state fst_block_example \<noteq> blockStateOpen \<and>
   WriteBatch ins_all 10 10 fst_block_example [(1, Unmarked), (2, MarkedSuccess)] =
     Some (fst_block_example,
           [(1, MarkedError errUnableToWriteBlockSealed), (2, MarkedSuccess)],
           \<lparr>NumSuccess = 0, NumError = 2\<rparr>, Some errUnableToWriteBlockSealed) \<and>
   state (fst (Close open_block_example)) \<noteq> blockStateOpen \<and>
   snd (snd (snd (the (WriteBatch ins_all 10 10 (fst (Close open_block_example)) [(1, Unmarked)])))) =
     Some errUnableToWriteBlockClosed"
  using WriteBatch_not_open [of fst_block_example ins_all 10 10 "[(1, Unmarked), (2, MarkedSuccess)]"]
    WriteBatch_not_open [of "fst (Close open_block_example)" ins_all 10 10 "[(1, Unmarked)]"]
  by (simp add: fst_block_example_def WriteBatch_def writeBatchErrorInvalidState_def
      MarkUnmarkedEntriesError_def Len_def Close_def ex_defs split: prod.splits)

lemma updateFirst_twice:
  "(\<And>x. P (g x) = P x) \<Longrightarrow> (\<And>x. f (g x) = f x) \<Longrightarrow>
   updateFirst P f (updateFirst P g xs) = updateFirst P f xs"
  by (induction xs) auto

lemma find_updateFirst:
  "find P xs = Some a \<Longrightarrow> P (f a) \<Longrightarrow> find P (updateFirst P f xs) = Some (f a)"
  by (induction xs) (auto split: if_splits)

lemma length_updateFirst: "length (updateFirst P f xs) = length xs"
  by (induction xs) auto

lemma storeMutableSegment_twice:
  "storeMutableSegment x (storeMutableSegment y b) = storeMutableSegment x b"
  by (simp add: storeMutableSegment_def updateFirst_twice)

lemma length_unmarkedFirst: "length (unmarkedFirst inserts) = length inserts"
  by (simp add: unmarkedFirst_def sum_length_filter_compl)

lemma numPending_le: "numPending inserts \<le> length inserts"
  by (simp add: numPending_def)

lemma PendingDocs_filter:
  "PendingDocs inserts = map fst (filter (\<lambda>e. snd e = Unmarked) inserts)"
  by (simp add: PendingDocs_def numPending_def unmarkedFirst_def)

lemma length_PendingDocs: "length (PendingDocs inserts) = numPending inserts"
  by (simp add: PendingDocs_filter numPending_def)

lemma unmarkedFirst_pending:
  assumes "i < numPending inserts"
  shows "unmarkedFirst inserts ! i = (PendingDocs inserts ! i, Unmarked)"
proof -
  let ?us = "filter (\<lambda>e. snd e = Unmarked) inserts"
  from assms have i: "i < length ?us" by (simp add: numPending_def)
  then have "?us ! i \<in> set ?us" by (rule nth_mem)
  then have u: "snd (?us ! i) = Unmarked" by simp
  from i have "unmarkedFirst inserts ! i = ?us ! i"
    by (simp add: unmarkedFirst_def nth_append)
  moreover from i have "PendingDocs inserts ! i = fst (?us ! i)"
    by (simp add: PendingDocs_filter)
  ultimately show ?thesis using u by (simp add: prod_eq_iff)
qed

lemma unmarkedFirst_marked:
  "drop (numPending inserts) (unmarkedFirst inserts) = filter (\<lambda>e. snd e \<noteq> Unmarked) inserts"
  by (simp add: numPending_def unmarkedFirst_def)

lemma WriteBatch_returns:
  assumes "state b = blockStateOpen"
    and "mutableActiveSegmentWithRLock b = Some mutableActiveSeg"
    and "mutableSegment mutableActiveSeg = Some mutableSeg"
    and "seg_InsertBatch ins mutableSeg (PendingDocs inserts) = (mutableSeg', insertErr)"
    and "\<forall>errs. insertErr = Some (BatchPartialError errs) \<longrightarrow>
           (\<forall>p \<in> set errs. fst p < length inserts)"
  shows "\<exists>inserts' res err. WriteBatch ins now nowFn b inserts =
           Some (writeBatchDeferred now nowFn mutableActiveSeg mutableSeg'
                   (storeMutableSegment mutableSeg' b), inserts', res, err)"
proof (cases insertErr)
  case None
  with assms show ?thesis by (simp add: WriteBatch_def Let_def)
next
  case (Some e)
  show ?thesis
  proof (cases "\<exists>errs. e = BatchPartialError errs")
    case True
    then obtain errs where e: "e = BatchPartialError errs" by blast
    with Some assms(5) have "\<forall>p \<in> set errs. fst p < length inserts" by simp
    then have "\<forall>p \<in> set errs. fst p < length (unmarkedFirst inserts)"
      by (simp add: length_unmarkedFirst)
    from markPartialErrors_Some [OF this] obtain ins1
      where "markPartialErrors errs (unmarkedFirst inserts) = Some ins1" by blast
    with Some e assms(1-4) show ?thesis by (simp add: WriteBatch_def Let_def)
  next
    case False
    with Some assms(1-4) show ?thesis
      by (cases e) (simp_all add: WriteBatch_def Let_def)
  qed
qed

lemma writeBatchDeferred_due:
  assumes "seg_Size mutableSeg' > defaultMutableSegmentRotationSize \<or>
           now - creationTime mutableActiveSeg > defaultMutableSegmentRotationAge"
  shows "writeBatchDeferred now nowFn mutableActiveSeg mutableSeg'
           (storeMutableSegment mutableSeg' b) =
         b\<lparr>segmentID := segmentID b + 1,
           activeSegments :=
             \<lparr>ptr = segmentID b + 1, creationTime = nowFn,
              astate = mutableActiveSegmentState,
              mutableSegment = Some (NewSegment (segmentID b + 1)), fstSegment = None\<rparr>
             # updateFirst (\<lambda>seg. astate seg = mutableActiveSegmentState)
                 (\<lambda>seg. seg\<lparr>mutableSegment := Some (sealed mutableSeg')\<rparr>) (activeSegments b),
           rotateCh := (if rotateCh b < 1 then rotateCh b + 1 else rotateCh b)\<rparr>"
  using assms
  by (simp add: writeBatchDeferred_def fst_seg_Seal updateFirst_twice
      addActiveSegmentWithLock_def triggerRotations_def Let_def storeMutableSegment_def)

lemma writeBatchDeferred_not_due:
  assumes "\<not> (seg_Size mutableSeg' > defaultMutableSegmentRotationSize \<or>
           now - creationTime mutableActiveSeg > defaultMutableSegmentRotationAge)"
  shows "writeBatchDeferred now nowFn mutableActiveSeg mutableSeg' b1 = b1"
  using assms by (simp add: writeBatchDeferred_def)

text \<open>
  Claim C4. WriteBatch on an Open block, when InsertBatch on the current mutable
  segment returns a batch-partial-error with the per-index errors \<open>errs\<close>, each index
  a position among the pending documents handed to InsertBatch: the call returns
  \<open>NumSuccess = len - numErr\<close>, \<open>NumError = numErr\<close> and the partial error itself.
  In the batch after the call, the entry at every named index holds the document at
  that index of the pending documents and is marked Error, with the first error listed
  for its index; every other entry that was unmarked is marked Success and keeps its
  document; the entries that were marked before the call follow, as they were. The
  pending documents are the documents of the unmarked entries of the batch, in order.
\<close>

theorem WriteBatch_partial_error:
  assumes "state b = blockStateOpen"
    and "mutableActiveSegmentWithRLock b = Some mutableActiveSeg"
    and "mutableSegment mutableActiveSeg = Some mutableSeg"
    and "ins mutableSeg (PendingDocs inserts) = (docs', Some (BatchPartialError errs))"
    and "\<forall>p \<in> set errs. fst p < length (PendingDocs inserts)"
  shows "\<exists>b' inserts'.
     WriteBatch ins now nowFn b inserts =
       Some (b', inserts',
             \<lparr>NumSuccess = int (length inserts) - int (length errs),
              NumError = int (length errs)\<rparr>,
             Some (BatchPartialError errs)) \<and>
     length inserts' = length inserts \<and>
     (\<forall>p \<in> set errs. \<exists>e. map_of errs (fst p) = Some e \<and>
        inserts' ! fst p = (PendingDocs inserts ! fst p, MarkedError e)) \<and>
     (\<forall>i < length (PendingDocs inserts). map_of errs i = None \<longrightarrow>
        inserts' ! i = (PendingDocs inserts ! i, MarkedSuccess)) \<and>
     drop (length (PendingDocs inserts)) inserts' = filter (\<lambda>e. snd e \<noteq> Unmarked) inserts \<and>
     PendingDocs inserts = map fst (filter (\<lambda>e. snd e = Unmarked) inserts)"
proof -
  let ?n = "numPending inserts"
  let ?u = "unmarkedFirst inserts"
  have n: "length (PendingDocs inserts) = ?n" by (rule length_PendingDocs)
  have lu: "length ?u = length inserts" by (rule length_unmarkedFirst)
  have nle: "?n \<le> length inserts" by (rule numPending_le)
  from assms(5) n nle lu have "\<forall>p \<in> set errs. fst p < length ?u" by auto
  from markPartialErrors_Some [OF this] obtain ins1 where
    m: "markPartialErrors errs ?u = Some ins1" and
    l1: "length ins1 = length ?u" and
    n1: "\<forall>i < length ?u. ins1 ! i =
        (if snd (?u ! i) = Unmarked
         then (case map_of errs i of
                 None \<Rightarrow> ?u ! i
               | Some e \<Rightarrow> (fst (?u ! i), MarkedError e))
         else ?u ! i)" by blast
  define inserts' where "inserts' = MarkUnmarkedEntriesSuccess ins1"
  have run: "\<exists>b'. WriteBatch ins now nowFn b inserts =
       Some (b', inserts',
             \<lparr>NumSuccess = int (length inserts) - int (length errs),
              NumError = int (length errs)\<rparr>,
             Some (BatchPartialError errs))"
    using assms(1-4) m
    by (simp add: WriteBatch_def seg_InsertBatch_def Let_def Len_def inserts'_def)
  have len: "length inserts' = length inserts"
    using l1 lu by (simp add: inserts'_def MarkUnmarkedEntriesSuccess_def)
  have nth: "inserts' ! i =
        (if snd (?u ! i) = Unmarked
         then (case map_of errs i of
                 None \<Rightarrow> (fst (?u ! i), MarkedSuccess)
               | Some e \<Rightarrow> (fst (?u ! i), MarkedError e))
         else ?u ! i)" if i: "i < length inserts" for i
  proof -
    from i lu n1 have a: "ins1 ! i =
        (if snd (?u ! i) = Unmarked
         then (case map_of errs i of
                 None \<Rightarrow> ?u ! i
               | Some e \<Rightarrow> (fst (?u ! i), MarkedError e))
         else ?u ! i)" by simp
    from i l1 lu have b: "inserts' ! i =
        (if snd (ins1 ! i) = Unmarked then (fst (ins1 ! i), MarkedSuccess) else ins1 ! i)"
      by (simp add: inserts'_def MarkUnmarkedEntriesSuccess_nth)
    from a b show ?thesis by (auto split: option.splits)
  qed
  have pend: "inserts' ! i =
        (case map_of errs i of
           None \<Rightarrow> (PendingDocs inserts ! i, MarkedSuccess)
         | Some e \<Rightarrow> (PendingDocs inserts ! i, MarkedError e))" if i: "i < ?n" for i
  proof -
    from i nle have "i < length inserts" by simp
    from nth [OF this] unmarkedFirst_pending [OF i] show ?thesis
      by (simp split: option.splits)
  qed
  have named: "\<forall>p \<in> set errs. \<exists>e. map_of errs (fst p) = Some e \<and>
        inserts' ! fst p = (PendingDocs inserts ! fst p, MarkedError e)"
  proof
    fix p assume p: "p \<in> set errs"
    with assms(5) n have i: "fst p < ?n" by auto
    from p have "fst p \<in> fst ` set errs" by (rule imageI)
    then have "map_of errs (fst p) \<noteq> None" by (simp add: map_of_eq_None_iff)
    then obtain e where e: "map_of errs (fst p) = Some e" by blast
    with pend [OF i] have "inserts' ! fst p = (PendingDocs inserts ! fst p, MarkedError e)"
      by simp
    with e show "\<exists>e. map_of errs (fst p) = Some e \<and>
        inserts' ! fst p = (PendingDocs inserts ! fst p, MarkedError e)" by blast
  qed
  have rest: "\<forall>i < length (PendingDocs inserts). map_of errs i = None \<longrightarrow>
        inserts' ! i = (PendingDocs inserts ! i, MarkedSuccess)"
    using pend n by simp
  have marked: "drop (length (PendingDocs inserts)) inserts' =
        filter (\<lambda>e. snd e \<noteq> Unmarked) inserts"
  proof -
    have "drop ?n inserts' = drop ?n ?u"
    proof (rule nth_equalityI)
      show "length (drop ?n inserts') = length (drop ?n ?u)" using len lu by simp
    next
      fix i assume "i < length (drop ?n inserts')"
      with len have i: "?n + i < length inserts" by simp
      have "?u ! (?n + i) \<in> set (drop ?n ?u)"
        using i lu by (metis add.commute in_set_conv_nth length_drop less_diff_conv nth_drop nle)
      then have "snd (?u ! (?n + i)) \<noteq> Unmarked"
        by (simp add: unmarkedFirst_marked)
      with nth [OF i] have "inserts' ! (?n + i) = ?u ! (?n + i)" by simp
      with i len lu nle show "drop ?n inserts' ! i = drop ?n ?u ! i" by simp
    qed
    with n show ?thesis by (simp add: unmarkedFirst_marked)
  qed
  from run len named rest marked PendingDocs_filter show ?thesis by blast
qed

theorem WriteBatch_partial_error_witness:
  "state open_block_example = blockStateOpen \<and>
   (\<exists>a m. mutableActiveSegmentWithRLock open_block_example = Some a \<and>
      mutableSegment a = Some m \<and>
      ins_reject_2 m (PendingDocs batch5) =
        ([10, 11, 13, 14], Some (BatchPartialError [(2, errLibrary 1)])) \<and>
      ins_reject_0 m (PendingDocs batch_with_marked) =
        ([12], Some (BatchPartialError [(0, errLibrary 1)]))) \<and>
   PendingDocs batch5 = [10, 11, 12, 13, 14] \<and>
   PendingDocs batch_with_marked = [11, 12] \<and>
   list_all (\<lambda>p. fst p < length (PendingDocs batch5)) [(2::nat, errLibrary 1)] \<and>
   list_all (\<lambda>p. fst p < length (PendingDocs batch_with_marked)) [(0::nat, errLibrary 1)] \<and>
   (\<exists>b'. WriteBatch ins_reject_2 10 10 open_block_example batch5 =
      Some (b',
            [(10, MarkedSuccess), (11, MarkedSuccess), (12, MarkedError (errLibrary 1)),
             (13, MarkedSuccess), (14, MarkedSuccess)],
            \<lparr>NumSuccess = 4, NumError = 1\<rparr>,
            Some (BatchPartialError [(2, errLibrary 1)]))) \<and>
   (\<exists>b'. WriteBatch ins_reject_0 10 10 open_block_example batch_with_marked =
      Some (b',
            [(11, MarkedError (errLibrary 1)), (12, MarkedSuccess), (10, MarkedSuccess)],
            \<lparr>NumSuccess = 2, NumError = 1\<rparr>,
            Some (BatchPartialError [(0, errLibrary 1)])))"
proof -
  let ?a = "hd (activeSegments open_block_example)"
  let ?m = "NewSegment 1"
  have h1: "state open_block_example = blockStateOpen" by (simp add: ex_defs)
  have h2: "mutableActiveSegmentWithRLock open_block_example = Some ?a"
    by (simp add: mutableActiveSegmentWithRLock_def ex_defs)
  have h3: "mutableSegment ?a = Some ?m" by (simp add: ex_defs)
  have p1: "PendingDocs batch5 = [10, 11, 12, 13, 14]"
    by (simp add: batch_defs batch5_def)
  have p2: "PendingDocs batch_with_marked = [11, 12]"
    by (simp add: batch_defs batch_with_marked_def)
  have h4: "ins_reject_2 ?m (PendingDocs batch5) =
      ([10, 11, 13, 14], Some (BatchPartialError [(2, errLibrary 1)]))"
    by (simp add: p1 ins_reject_2_def NewSegment_def)
  have g4: "ins_reject_0 ?m (PendingDocs batch_with_marked) =
      ([12], Some (BatchPartialError [(0, errLibrary 1)]))"
    by (simp add: p2 ins_reject_0_def NewSegment_def)
  have h5: "\<forall>p \<in> set [(2::nat, errLibrary 1)]. fst p < length (PendingDocs batch5)"
    by (simp add: p1)
  have g5: "\<forall>p \<in> set [(0::nat, errLibrary 1)]. fst p < length (PendingDocs batch_with_marked)"
    by (simp add: p2)
  have run1: "\<exists>b'. WriteBatch ins_reject_2 10 10 open_block_example batch5 =
      Some (b',
            [(10, MarkedSuccess), (11, MarkedSuccess), (12, MarkedError (errLibrary 1)),
             (13, MarkedSuccess), (14, MarkedSuccess)],
            \<lparr>NumSuccess = 4, NumError = 1\<rparr>,
            Some (BatchPartialError [(2, errLibrary 1)]))"
    using WriteBatch_partial_error [where ins = ins_reject_2 and now = 10 and nowFn = 10,
        OF h1 h2 h3 h4 h5]
    by (simp add: WriteBatch_def mutableActiveSegmentWithRLock_def seg_InsertBatch_def
        ins_reject_2_def batch_defs batch5_def MarkUnmarkedEntryError_def
        MarkUnmarkedEntriesSuccess_def Len_def ex_defs)
  have run2: "\<exists>b'. WriteBatch ins_reject_0 10 10 open_block_example batch_with_marked =
      Some (b',
            [(11, MarkedError (errLibrary 1)), (12, MarkedSuccess), (10, MarkedSuccess)],
            \<lparr>NumSuccess = 2, NumError = 1\<rparr>,
            Some (BatchPartialError [(0, errLibrary 1)]))"
    using WriteBatch_partial_error [where ins = ins_reject_0 and now = 10 and nowFn = 10,
        OF h1 h2 h3 g4 g5]
    by (simp add: WriteBatch_def mutableActiveSegmentWithRLock_def seg_InsertBatch_def
        ins_reject_0_def batch_defs batch_with_marked_def MarkUnmarkedEntryError_def
        MarkUnmarkedEntriesSuccess_def Len_def ex_defs)
  from h5 have h5': "list_all (\<lambda>p. fst p < length (PendingDocs batch5)) [(2::nat, errLibrary 1)]"
    by simp
  from g5 have g5': "list_all (\<lambda>p. fst p < length (PendingDocs batch_with_marked))
      [(0::nat, errLibrary 1)]"
    by simp
  from h2 h3 h4 g4 have ex: "\<exists>a m. mutableActiveSegmentWithRLock open_block_example = Some a \<and>
      mutableSegment a = Some m \<and>
      ins_reject_2 m (PendingDocs batch5) =
        ([10, 11, 13, 14], Some (BatchPartialError [(2, errLibrary 1)])) \<and>
      ins_reject_0 m (PendingDocs batch_with_marked) =
        ([12], Some (BatchPartialError [(0, errLibrary 1)]))" by blast
  from h1 ex p1 p2 h5' g5' run1 run2 show ?thesis by blast
qed

text \<open>
  Claim C8. WriteBatch on an Open block that reaches the insert returns (the indices
  of a partial error lying within the batch), and the block it leaves, still under
  the write lock, is this: if the size of the mutable segment after the insert
  exceeds the rotation size, or its age at \<open>now\<close> exceeds the rotation age, then the
  segment written to is sealed (it stays in its slot, still in the Mutable state), a
  fresh empty unsealed segment in the Mutable state is at the front of
  \<open>activeSegments\<close>, and the rotator is signalled without blocking: an empty channel
  holds one signal afterwards, a full channel is left as it is.
\<close>

theorem WriteBatch_rotation_trigger:
  assumes "state b = blockStateOpen"
    and "mutableActiveSegmentWithRLock b = Some mutableActiveSeg"
    and "mutableSegment mutableActiveSeg = Some mutableSeg"
    and "seg_InsertBatch ins mutableSeg (PendingDocs inserts) = (mutableSeg', insertErr)"
    and "\<forall>errs. insertErr = Some (BatchPartialError errs) \<longrightarrow>
           (\<forall>p \<in> set errs. fst p < length inserts)"
  shows "\<exists>b' inserts' res err.
     WriteBatch ins now nowFn b inserts = Some (b', inserts', res, err) \<and>
     (seg_Size mutableSeg' > defaultMutableSegmentRotationSize \<or>
      now - creationTime mutableActiveSeg > defaultMutableSegmentRotationAge \<longrightarrow>
        activeSegments b' =
          \<lparr>ptr = segmentID b + 1, creationTime = nowFn, astate = mutableActiveSegmentState,
           mutableSegment = Some (NewSegment (segmentID b + 1)), fstSegment = None\<rparr>
          # updateFirst (\<lambda>seg. astate seg = mutableActiveSegmentState)
              (\<lambda>seg. seg\<lparr>mutableSegment := Some (sealed mutableSeg')\<rparr>) (activeSegments b) \<and>
        find (\<lambda>seg. astate seg = mutableActiveSegmentState) (tl (activeSegments b')) =
          Some (mutableActiveSeg\<lparr>mutableSegment := Some (sealed mutableSeg')\<rparr>) \<and>
        seg_sealed (sealed mutableSeg') \<and>
        \<not> seg_sealed (NewSegment (segmentID b + 1)) \<and>
        seg_docs (NewSegment (segmentID b + 1)) = [] \<and>
        rotateCh b' = (if rotateCh b < 1 then rotateCh b + 1 else rotateCh b) \<and>
        state b' = blockStateOpen)"
proof -
  define b' where "b' = writeBatchDeferred now nowFn mutableActiveSeg mutableSeg'
                   (storeMutableSegment mutableSeg' b)"
  from WriteBatch_returns [OF assms, of now nowFn] obtain inserts' res err where
    run: "WriteBatch ins now nowFn b inserts = Some (b', inserts', res, err)"
    unfolding b'_def by blast
  have due: "activeSegments b' =
          \<lparr>ptr = segmentID b + 1, creationTime = nowFn, astate = mutableActiveSegmentState,
           mutableSegment = Some (NewSegment (segmentID b + 1)), fstSegment = None\<rparr>
          # updateFirst (\<lambda>seg. astate seg = mutableActiveSegmentState)
              (\<lambda>seg. seg\<lparr>mutableSegment := Some (sealed mutableSeg')\<rparr>) (activeSegments b) \<and>
        find (\<lambda>seg. astate seg = mutableActiveSegmentState) (tl (activeSegments b')) =
          Some (mutableActiveSeg\<lparr>mutableSegment := Some (sealed mutableSeg')\<rparr>) \<and>
        seg_sealed (sealed mutableSeg') \<and>
        \<not> seg_sealed (NewSegment (segmentID b + 1)) \<and>
        seg_docs (NewSegment (segmentID b + 1)) = [] \<and>
        rotateCh b' = (if rotateCh b < 1 then rotateCh b + 1 else rotateCh b) \<and>
        state b' = blockStateOpen"
    if d: "seg_Size mutableSeg' > defaultMutableSegmentRotationSize \<or>
      now - creationTime mutableActiveSeg > defaultMutableSegmentRotationAge"
  proof -
    have eq: "b' = b\<lparr>segmentID := segmentID b + 1,
           activeSegments :=
             \<lparr>ptr = segmentID b + 1, creationTime = nowFn,
              astate = mutableActiveSegmentState,
              mutableSegment = Some (NewSegment (segmentID b + 1)), fstSegment = None\<rparr>
             # updateFirst (\<lambda>seg. astate seg = mutableActiveSegmentState)
                 (\<lambda>seg. seg\<lparr>mutableSegment := Some (sealed mutableSeg')\<rparr>) (activeSegments b),
           rotateCh := (if rotateCh b < 1 then rotateCh b + 1 else rotateCh b)\<rparr>"
      unfolding b'_def by (rule writeBatchDeferred_due [OF d])
    have f: "find (\<lambda>seg. astate seg = mutableActiveSegmentState) (activeSegments b) =
        Some mutableActiveSeg"
      using assms(2) by (simp add: mutableActiveSegmentWithRLock_def)
    then have "astate mutableActiveSeg = mutableActiveSegmentState"
      by (auto simp: find_Some_iff)
    with f have "find (\<lambda>seg. astate seg = mutableActiveSegmentState)
        (updateFirst (\<lambda>seg. astate seg = mutableActiveSegmentState)
              (\<lambda>seg. seg\<lparr>mutableSegment := Some (sealed mutableSeg')\<rparr>) (activeSegments b)) =
        Some (mutableActiveSeg\<lparr>mutableSegment := Some (sealed mutableSeg')\<rparr>)"
      by (intro find_updateFirst) simp_all
    with eq assms(1) show ?thesis
      by (simp add: sealed_def NewSegment_def)
  qed
  from run due show ?thesis by blast
qed

theorem WriteBatch_rotation_trigger_witness:
  "state open_block_example = blockStateOpen \<and>
   (\<exists>a m. mutableActiveSegmentWithRLock open_block_example = Some a \<and>
      mutableSegment a = Some m \<and> creationTime a = 0 \<and>
      seg_InsertBatch ins_all m (PendingDocs [(1, Unmarked)]) = (m\<lparr>seg_docs := [1]\<rparr>, None)) \<and>
   40000000000 - 0 > defaultMutableSegmentRotationAge \<and>
   (\<exists>b' inserts' res err.
      WriteBatch ins_all 40000000000 50 open_block_example [(1, Unmarked)] =
        Some (b', inserts', res, err) \<and>
      map astate (activeSegments b') = [mutableActiveSegmentState, mutableActiveSegmentState] \<and>
      map (map_option seg_sealed \<circ> mutableSegment) (activeSegments b') = [Some False, Some True] \<and>
      map (map_option seg_docs \<circ> mutableSegment) (activeSegments b') = [Some [], Some [1]] \<and>
      rotateCh b' = 1)"
proof -
  let ?a = "hd (activeSegments open_block_example)"
  let ?m = "NewSegment 1"
  have h1: "state open_block_example = blockStateOpen" by (simp add: ex_defs)
  have h2: "mutableActiveSegmentWithRLock open_block_example = Some ?a"
    by (simp add: mutableActiveSegmentWithRLock_def ex_defs)
  have h3: "mutableSegment ?a = Some ?m" by (simp add: ex_defs)
  have h4: "seg_InsertBatch ins_all ?m (PendingDocs [(1, Unmarked)]) = (?m\<lparr>seg_docs := [1]\<rparr>, None)"
    by (simp add: seg_InsertBatch_def ins_all_def batch_defs NewSegment_def)
  have h5: "\<forall>errs. (None :: error option) = Some (BatchPartialError errs) \<longrightarrow>
           (\<forall>p \<in> set errs. fst p < length [(1::nat, Unmarked)])" by simp
  have c: "creationTime ?a = 0" by (simp add: ex_defs)
  have age: "40000000000 - 0 > defaultMutableSegmentRotationAge"
    by (simp add: defaultMutableSegmentRotationAge_def)
  from WriteBatch_rotation_trigger [where ins = ins_all and now = 40000000000 and nowFn = 50,
      OF h1 h2 h3 h4 h5] c age
  have run: "\<exists>b' inserts' res err.
      WriteBatch ins_all 40000000000 50 open_block_example [(1, Unmarked)] =
        Some (b', inserts', res, err) \<and>
      map astate (activeSegments b') = [mutableActiveSegmentState, mutableActiveSegmentState] \<and>
      map (map_option seg_sealed \<circ> mutableSegment) (activeSegments b') = [Some False, Some True] \<and>
      map (map_option seg_docs \<circ> mutableSegment) (activeSegments b') = [Some [], Some [1]] \<and>
      rotateCh b' = 1"
    by (auto simp: ex_defs sealed_def)
  from h1 h2 h3 h4 c age run show ?thesis by blast
qed

subsection \<open>AddResults\<close>

lemma removeRange_points:
  "ranges_points (removeRange r other) = range_points r - range_points other"
  by (auto simp: removeRange_def ranges_points_def range_points_def split: if_splits)

lemma ranges_points_concat:
  "ranges_points (concat xss) = (\<Union>xs \<in> set xss. ranges_points xs)"
  by (auto simp: ranges_points_def)

lemma removeRanges_points:
  "ranges_points (removeRanges rs others) = ranges_points rs - ranges_points others"
  unfolding removeRanges_def
proof (induction others arbitrary: rs)
  case Nil
  then show ?case by (simp add: ranges_points_def)
next
  case (Cons other others)
  have step: "ranges_points (concat (map (\<lambda>r. removeRange r other) rs)) =
      ranges_points rs - range_points other"
    by (auto simp: ranges_points_concat removeRange_points) (auto simp: ranges_points_def)
  show ?case
    using Cons.IH [of "concat (map (\<lambda>r. removeRange r other) rs)"] step
    by (auto simp: ranges_points_def)
qed

lemma shardRanges_points:
  "t \<in> ranges_points (shardRanges r s) \<longleftrightarrow> (s, t) \<in> str_points r"
  by (force simp: shardRanges_def str_points_def ranges_points_def)

lemma Subtract_points: "str_points (Subtract r other) = str_points r - str_points other"
proof -
  have "(s, t) \<in> str_points (Subtract r other) \<longleftrightarrow>
        (s, t) \<in> str_points r \<and> (s, t) \<notin> str_points other" for s t
  proof -
    have "(s, t) \<in> str_points (Subtract r other) \<longleftrightarrow>
        (\<exists>p \<in> set r. fst p = s \<and> t \<in> ranges_points (removeRanges (snd p) (shardRanges other (fst p))))"
      by (auto simp: str_points_def Subtract_def)
    also have "\<dots> \<longleftrightarrow> (\<exists>p \<in> set r. fst p = s \<and> t \<in> ranges_points (snd p) \<and>
          t \<notin> ranges_points (shardRanges other s))"
      by (auto simp: removeRanges_points)
    also have "\<dots> \<longleftrightarrow> (\<exists>p \<in> set r. fst p = s \<and> t \<in> ranges_points (snd p)) \<and>
          (s, t) \<notin> str_points other"
      by (auto simp: shardRanges_points)
    also have "\<dots> \<longleftrightarrow> (s, t) \<in> str_points r \<and> (s, t) \<notin> str_points other"
      by (force simp: str_points_def)
    finally show ?thesis .
  qed
  then show ?thesis by auto
qed

lemma removeRange_wf:
  "fst r < snd r \<Longrightarrow> x \<in> set (removeRange r other) \<Longrightarrow> fst x < snd x"
  by (auto simp: removeRange_def split: if_splits)

lemma removeRanges_wf:
  "\<forall>x \<in> set rs. fst x < snd x \<Longrightarrow> \<forall>x \<in> set (removeRanges rs others). fst x < snd x"
  unfolding removeRanges_def
proof (induction others arbitrary: rs)
  case Nil
  then show ?case by simp
next
  case (Cons other others)
  have "\<forall>x \<in> set (concat (map (\<lambda>r. removeRange r other) rs)). fst x < snd x"
  proof
    fix x assume "x \<in> set (concat (map (\<lambda>r. removeRange r other) rs))"
    then obtain r where r: "r \<in> set rs" and x: "x \<in> set (removeRange r other)" by auto
    from Cons.prems r have "fst r < snd r" by blast
    from removeRange_wf [OF this x] show "fst x < snd x" .
  qed
  from Cons.IH [OF this] show ?case by simp
qed

lemma Subtract_wf: "wf_ranges r \<Longrightarrow> wf_ranges (Subtract r other)"
  unfolding wf_ranges_def allRanges_def Subtract_def
  using removeRanges_wf by fastforce

lemma IsEmpty_allRanges: "IsEmpty r \<longleftrightarrow> allRanges r = []"
  by (auto simp: IsEmpty_def allRanges_def list_all_iff)

lemma range_points_nonempty: "fst x < snd x \<Longrightarrow> fst x \<in> range_points x"
  by (simp add: range_points_def)

lemma IsEmpty_points:
  assumes "wf_ranges r"
  shows "IsEmpty r \<longleftrightarrow> str_points r = {}"
proof
  assume "IsEmpty r"
  then have "\<forall>p \<in> set r. snd p = []" by (simp add: IsEmpty_def list_all_iff)
  then show "str_points r = {}" by (auto simp: str_points_def ranges_points_def)
next
  assume e: "str_points r = {}"
  have "snd p = []" if p: "p \<in> set r" for p
  proof (cases "snd p")
    case Nil
    then show ?thesis .
  next
    case (Cons x xs)
    with p have "x \<in> set (allRanges r)" by (force simp: allRanges_def)
    with assms have "fst x < snd x" by (simp add: wf_ranges_def)
    then have "fst x \<in> range_points x" by (rule range_points_nonempty)
    with Cons p have "(fst p, fst x) \<in> str_points r"
      by (auto simp: str_points_def ranges_points_def)
    with e show ?thesis by simp
  qed
  then show "IsEmpty r" by (simp add: IsEmpty_def list_all_iff)
qed

lemma foldl_AddRanges: "foldl AddRanges acc xs = acc @ concat xs"
  by (induction xs arbitrary: acc) (auto simp: AddRanges_def)

lemma currFulfilled_points:
  "str_points (currFulfilled b) = (\<Union>g \<in> set (shardRangesSegments b). str_points (shardTimeRanges g))"
  by (auto simp: currFulfilled_def foldl_AddRanges str_points_def)

lemma currFulfilled_wf:
  "\<forall>g \<in> set (shardRangesSegments b). wf_ranges (shardTimeRanges g) \<Longrightarrow> wf_ranges (currFulfilled b)"
  by (auto simp: currFulfilled_def foldl_AddRanges wf_ranges_def allRanges_def)

lemma covered_iff:
  assumes "\<forall>g \<in> set (shardRangesSegments b). wf_ranges (shardTimeRanges g)"
  shows "IsEmpty (Subtract (Copy (currFulfilled b)) F) \<longleftrightarrow>
         (\<Union>g \<in> set (shardRangesSegments b). str_points (shardTimeRanges g)) \<subseteq> str_points F"
proof -
  have "wf_ranges (Subtract (currFulfilled b) F)"
    using currFulfilled_wf [OF assms] by (rule Subtract_wf)
  then show ?thesis
    by (simp add: Copy_def IsEmpty_points Subtract_points currFulfilled_points)
qed

lemma fst_seg_Close: "fst (seg_Close s) = closed s"
  by (cases s) (simp add: seg_Close_def closed_def)

lemma closeSegments_map: "fst (closeSegments multiErr segs) = map closed segs"
proof (induction segs arbitrary: multiErr)
  case Nil
  then show ?case by simp
next
  case (Cons seg segs)
  show ?case
    using Cons.IH [of "multiErr_Add multiErr (snd (seg_Close seg))"] fst_seg_Close [of seg]
    by (auto split: prod.splits)
qed

lemma sealIncoming_map:
  "fst (sealIncoming isSealed multiErr segs) =
     map (\<lambda>s. if seg_mutable s \<and> isSealed then sealed s else s) segs"
proof (induction segs arbitrary: multiErr)
  case Nil
  then show ?case by simp
next
  case (Cons seg segs)
  obtain x' e where s: "seg_Seal seg = (x', e)" by (cases "seg_Seal seg")
  then have x': "x' = sealed seg" using fst_seg_Seal [of seg] by simp
  show ?case
  proof (cases e)
    case None
    with s x' Cons.IH [of multiErr] show ?thesis by (auto split: prod.splits)
  next
    case (Some err)
    with s x' Cons.IH [of multiErr]
      Cons.IH [of "multiErr_Add multiErr (Some (bootstrappingSealedMutableSegmentInvariant err))"]
    show ?thesis by (auto split: prod.splits)
  qed
qed

lemma AddResults_stores:
  assumes "state b \<noteq> blockStateClosed"
    and "\<not> (fst (MinMax (Fulfilled results)) < startTime b \<or>
             snd (MinMax (Fulfilled results)) > endTime b)"
  shows "\<exists>err. AddResults b results =
      (if IsEmpty (Subtract (currFulfilled b) (Fulfilled results))
       then (b\<lparr>shardRangesSegments :=
                 [\<lparr>shardTimeRanges = Fulfilled results, segments = incoming b results\<rparr>]\<rparr>,
             map closed (concat (map segments (shardRangesSegments b))), err)
       else (b\<lparr>shardRangesSegments := shardRangesSegments b @
                 [\<lparr>shardTimeRanges = Fulfilled results, segments = incoming b results\<rparr>]\<rparr>,
             [], err))"
proof -
  obtain mn mx where mm: "MinMax (Fulfilled results) = (mn, mx)"
    by (cases "MinMax (Fulfilled results)")
  obtain segs e1 where si: "sealIncoming (IsSealedWithRLock b) [] (Segments results) = (segs, e1)"
    by (cases "sealIncoming (IsSealedWithRLock b) [] (Segments results)")
  then have segs: "segs = incoming b results"
    using sealIncoming_map [of "IsSealedWithRLock b" "[]" "Segments results"]
    by (simp add: incoming_def IsSealedWithRLock_def)
  obtain cl e2 where cs: "closeSegments e1 (concat (map segments (shardRangesSegments b))) = (cl, e2)"
    by (cases "closeSegments e1 (concat (map segments (shardRangesSegments b)))")
  then have cl: "cl = map closed (concat (map segments (shardRangesSegments b)))"
    using closeSegments_map [of e1 "concat (map segments (shardRangesSegments b))"] by simp
  show ?thesis
    using assms mm si segs cs cl
    by (simp add: AddResults_def Let_def Copy_def)
qed

lemma fold_min_Min: "fold min (map f xs) (f x) = Min (f ` set (x # xs))"
  using Min.set_eq_fold [of "f x" "map f xs"] by simp

lemma fold_max_Max: "fold max (map f xs) (f x) = Max (f ` set (x # xs))"
  using Max.set_eq_fold [of "f x" "map f xs"] by simp

lemma MinMax_nonempty:
  "allRanges r \<noteq> [] \<Longrightarrow>
   MinMax r = (Min (fst ` set (allRanges r)), Max (snd ` set (allRanges r)))"
  by (cases "allRanges r") (simp_all add: MinMax_def fold_min_Min fold_max_Max)

lemma str_points_allRanges:
  "p \<in> str_points r \<longleftrightarrow> (\<exists>q \<in> set r. fst q = fst p \<and> (\<exists>x \<in> set (snd q). snd p \<in> range_points x))"
  by (cases p) (auto simp: str_points_def ranges_points_def)

lemma point_in_some_range:
  "p \<in> str_points r \<Longrightarrow> \<exists>x \<in> set (allRanges r). fst x \<le> snd p \<and> snd p < snd x"
  by (force simp: str_points_allRanges allRanges_def range_points_def)

lemma range_gives_point:
  "x \<in> set (allRanges r) \<Longrightarrow> fst x \<le> t \<Longrightarrow> t < snd x \<Longrightarrow> \<exists>s. (s, t) \<in> str_points r"
  by (force simp: str_points_def ranges_points_def allRanges_def range_points_def)

lemma outside_window_fails:
  assumes "\<not> within_window b r"
  shows "fst (MinMax r) < startTime b \<or> snd (MinMax r) > endTime b"
proof -
  from assms obtain p where p: "p \<in> str_points r"
    and out: "snd p < startTime b \<or> endTime b \<le> snd p"
    by (auto simp: within_window_def)
  from point_in_some_range [OF p] obtain x where x: "x \<in> set (allRanges r)"
    and lo: "fst x \<le> snd p" and hi: "snd p < snd x" by blast
  from x have ne: "allRanges r \<noteq> []" by auto
  have "Min (fst ` set (allRanges r)) \<le> fst x" using x by simp
  moreover have "snd x \<le> Max (snd ` set (allRanges r))" using x by simp
  ultimately show ?thesis
    using out lo hi by (auto simp: MinMax_nonempty [OF ne])
qed

lemma inside_window_passes:
  assumes "wf_ranges r" and ne: "allRanges r \<noteq> []" and w: "within_window b r"
  shows "\<not> (fst (MinMax r) < startTime b \<or> snd (MinMax r) > endTime b)"
proof -
  have "Min (fst ` set (allRanges r)) \<in> fst ` set (allRanges r)"
    using ne by (intro Min_in) simp_all
  then obtain x where x: "x \<in> set (allRanges r)" and mn: "Min (fst ` set (allRanges r)) = fst x"
    by auto
  have "Max (snd ` set (allRanges r)) \<in> snd ` set (allRanges r)"
    using ne by (intro Max_in) simp_all
  then obtain y where y: "y \<in> set (allRanges r)" and mx: "Max (snd ` set (allRanges r)) = snd y"
    by auto
  from assms(1) x y have wx: "fst x < snd x" and wy: "fst y < snd y"
    by (simp_all add: wf_ranges_def)
  from range_gives_point [OF x, of "fst x"] wx obtain s where "(s, fst x) \<in> str_points r" by auto
  with w have lo: "startTime b \<le> fst x" by (auto simp: within_window_def)
  from range_gives_point [OF y, of "snd y - 1"] wy obtain s' where "(s', snd y - 1) \<in> str_points r"
    by auto
  with w have hi: "snd y - 1 < endTime b" by (auto simp: within_window_def)
  show ?thesis using lo hi mn mx by (simp add: MinMax_nonempty [OF ne])
qed

lemma no_ranges_within_window:
  assumes "allRanges r = []"
  shows "within_window b r"
proof -
  have "str_points r = {}"
  proof (rule ccontr)
    assume "str_points r \<noteq> {}"
    then obtain p where "p \<in> str_points r" by blast
    from point_in_some_range [OF this] assms show False by auto
  qed
  then show ?thesis by (simp add: within_window_def)
qed

lemma AddResults_passes:
  assumes st: "state b \<noteq> blockStateClosed"
    and pass: "\<not> (fst (MinMax (Fulfilled results)) < startTime b \<or>
             snd (MinMax (Fulfilled results)) > endTime b)"
  shows "snd (snd (AddResults b results)) \<noteq>
           Some (errFulfilledRangeOutside (Fulfilled results) (startTime b, endTime b)) \<and>
         last (shardRangesSegments (fst (AddResults b results))) =
           \<lparr>shardTimeRanges = Fulfilled results, segments = incoming b results\<rparr>"
proof -
  from AddResults_stores [OF st pass] obtain err where
    r: "AddResults b results =
      (if IsEmpty (Subtract (currFulfilled b) (Fulfilled results))
       then (b\<lparr>shardRangesSegments :=
                 [\<lparr>shardTimeRanges = Fulfilled results, segments = incoming b results\<rparr>]\<rparr>,
             map closed (concat (map segments (shardRangesSegments b))), err)
       else (b\<lparr>shardRangesSegments := shardRangesSegments b @
                 [\<lparr>shardTimeRanges = Fulfilled results, segments = incoming b results\<rparr>]\<rparr>,
             [], err))" by blast
  have l: "last (shardRangesSegments (fst (AddResults b results))) =
              \<lparr>shardTimeRanges = Fulfilled results, segments = incoming b results\<rparr>"
    using r by simp
  have e: "snd (snd (AddResults b results)) \<noteq>
              Some (errFulfilledRangeOutside (Fulfilled results) (startTime b, endTime b))"
    using st pass
    by (auto simp: AddResults_def Let_def FinalError_def split: prod.splits if_splits)
  from e l show ?thesis by blast
qed

text \<open>
  Claim C3. AddResults on a block that is not Closed, with a record that passes the
  range check. If subtracting the record's fulfilled ranges from the union of the
  ranges of the existing bootstrap records leaves nothing, the block afterwards holds
  exactly one bootstrap record, the new one (its mutable segments sealed when the
  block is Sealed), and every segment of the replaced records has been closed.
  Otherwise the new record is appended behind the existing records, which stay as
  they are, and no segment is closed. Where no stored range is empty, "leaves
  nothing" is the inclusion of the covered time points.
\<close>

theorem AddResults_replace_or_append:
  assumes "state b \<noteq> blockStateClosed"
    and "\<not> (fst (MinMax (Fulfilled results)) < startTime b \<or>
             snd (MinMax (Fulfilled results)) > endTime b)"
  shows "(IsEmpty (Subtract (currFulfilled b) (Fulfilled results)) \<longrightarrow>
            (\<exists>err. AddResults b results =
               (b\<lparr>shardRangesSegments :=
                     [\<lparr>shardTimeRanges = Fulfilled results, segments = incoming b results\<rparr>]\<rparr>,
                map closed (concat (map segments (shardRangesSegments b))), err)) \<and>
            (\<forall>s \<in> set (map closed (concat (map segments (shardRangesSegments b)))). seg_closed s)) \<and>
         (\<not> IsEmpty (Subtract (currFulfilled b) (Fulfilled results)) \<longrightarrow>
            (\<exists>err. AddResults b results =
               (b\<lparr>shardRangesSegments := shardRangesSegments b @
                     [\<lparr>shardTimeRanges = Fulfilled results, segments = incoming b results\<rparr>]\<rparr>,
                [], err))) \<and>
         ((\<forall>g \<in> set (shardRangesSegments b). wf_ranges (shardTimeRanges g)) \<longrightarrow>
            (IsEmpty (Subtract (currFulfilled b) (Fulfilled results)) \<longleftrightarrow>
             (\<Union>g \<in> set (shardRangesSegments b). str_points (shardTimeRanges g))
               - str_points (Fulfilled results) = {}))"
proof (intro conjI impI)
  assume e: "IsEmpty (Subtract (currFulfilled b) (Fulfilled results))"
  with AddResults_stores [OF assms] show "\<exists>err. AddResults b results =
               (b\<lparr>shardRangesSegments :=
                     [\<lparr>shardTimeRanges = Fulfilled results, segments = incoming b results\<rparr>]\<rparr>,
                map closed (concat (map segments (shardRangesSegments b))), err)"
    by simp
  show "\<forall>s \<in> set (map closed (concat (map segments (shardRangesSegments b)))). seg_closed s"
    by (simp add: closed_def)
next
  assume e: "\<not> IsEmpty (Subtract (currFulfilled b) (Fulfilled results))"
  with AddResults_stores [OF assms] show "\<exists>err. AddResults b results =
               (b\<lparr>shardRangesSegments := shardRangesSegments b @
                     [\<lparr>shardTimeRanges = Fulfilled results, segments = incoming b results\<rparr>]\<rparr>,
                [], err)"
    by simp
next
  assume "\<forall>g \<in> set (shardRangesSegments b). wf_ranges (shardTimeRanges g)"
  from covered_iff [OF this, of "Fulfilled results"]
  show "IsEmpty (Subtract (currFulfilled b) (Fulfilled results)) \<longleftrightarrow>
             (\<Union>g \<in> set (shardRangesSegments b). str_points (shardTimeRanges g))
               - str_points (Fulfilled results) = {}"
    by (simp add: Copy_def)
qed

text \<open>
  Claim C7, as amended. On a Closed block AddResults returns the closed-block error
  and leaves the block unchanged, whatever the record. On a block that is not Closed
  it returns the range-mismatch error and leaves the block (so its bootstrap records)
  unchanged for every record whose fulfilled ranges are not within
  \<open>[startTime, endTime)\<close>, and also for a record with no fulfilled range at all when
  the zero time is before \<open>startTime\<close> or after \<open>endTime\<close>; a record with no
  fulfilled range passes the check otherwise, and so does every record with at least
  one fulfilled range whose ranges (none of them empty, as \<open>xtime.Ranges\<close> keeps them)
  are all within the window: the error is not the range-mismatch error and the record
  is stored as the last bootstrap record.
\<close>

theorem AddResults_range_check:
  "(state b = blockStateClosed \<longrightarrow>
      AddResults b results = (b, [], Some errUnableToBootstrapBlockClosed)) \<and>
   (state b \<noteq> blockStateClosed \<longrightarrow>
      (\<not> within_window b (Fulfilled results) \<longrightarrow>
         AddResults b results =
           (b, [], Some (errFulfilledRangeOutside (Fulfilled results) (startTime b, endTime b)))) \<and>
      (allRanges (Fulfilled results) = [] \<longrightarrow>
         within_window b (Fulfilled results) \<and>
         (zeroTime < startTime b \<or> endTime b < zeroTime \<longrightarrow>
            AddResults b results =
              (b, [], Some (errFulfilledRangeOutside (Fulfilled results) (startTime b, endTime b)))) \<and>
         (\<not> (zeroTime < startTime b \<or> endTime b < zeroTime) \<longrightarrow>
            snd (snd (AddResults b results)) \<noteq>
              Some (errFulfilledRangeOutside (Fulfilled results) (startTime b, endTime b)) \<and>
            last (shardRangesSegments (fst (AddResults b results))) =
              \<lparr>shardTimeRanges = Fulfilled results, segments = incoming b results\<rparr>)) \<and>
      (wf_ranges (Fulfilled results) \<and> allRanges (Fulfilled results) \<noteq> [] \<and>
       within_window b (Fulfilled results) \<longrightarrow>
         \<not> (fst (MinMax (Fulfilled results)) < startTime b \<or>
            snd (MinMax (Fulfilled results)) > endTime b) \<and>
         snd (snd (AddResults b results)) \<noteq>
           Some (errFulfilledRangeOutside (Fulfilled results) (startTime b, endTime b)) \<and>
         last (shardRangesSegments (fst (AddResults b results))) =
           \<lparr>shardTimeRanges = Fulfilled results, segments = incoming b results\<rparr>))"
proof (intro conjI impI)
  assume "state b = blockStateClosed"
  then show "AddResults b results = (b, [], Some errUnableToBootstrapBlockClosed)"
    by (simp add: AddResults_def)
next
  assume st: "state b \<noteq> blockStateClosed"
  assume "\<not> within_window b (Fulfilled results)"
  from outside_window_fails [OF this] st
  show "AddResults b results =
      (b, [], Some (errFulfilledRangeOutside (Fulfilled results) (startTime b, endTime b)))"
    by (auto simp: AddResults_def split: prod.splits)
next
  assume "allRanges (Fulfilled results) = []"
  then show "within_window b (Fulfilled results)"
    by (rule no_ranges_within_window)
next
  assume st: "state b \<noteq> blockStateClosed"
  assume "allRanges (Fulfilled results) = []"
  then have mm: "MinMax (Fulfilled results) = (zeroTime, zeroTime)"
    by (simp add: MinMax_def)
  assume "zeroTime < startTime b \<or> endTime b < zeroTime"
  with st mm show "AddResults b results =
      (b, [], Some (errFulfilledRangeOutside (Fulfilled results) (startTime b, endTime b)))"
    by (simp add: AddResults_def)
next
  assume st: "state b \<noteq> blockStateClosed"
  assume "allRanges (Fulfilled results) = []"
  then have mm: "MinMax (Fulfilled results) = (zeroTime, zeroTime)"
    by (simp add: MinMax_def)
  assume "\<not> (zeroTime < startTime b \<or> endTime b < zeroTime)"
  with mm have pass: "\<not> (fst (MinMax (Fulfilled results)) < startTime b \<or>
               snd (MinMax (Fulfilled results)) > endTime b)" by simp
  from AddResults_passes [OF st pass]
  show "snd (snd (AddResults b results)) \<noteq>
           Some (errFulfilledRangeOutside (Fulfilled results) (startTime b, endTime b))"
    by blast
  from AddResults_passes [OF st pass]
  show "last (shardRangesSegments (fst (AddResults b results))) =
           \<lparr>shardTimeRanges = Fulfilled results, segments = incoming b results\<rparr>"
    by blast
next
  assume st: "state b \<noteq> blockStateClosed"
  assume a: "wf_ranges (Fulfilled results) \<and> allRanges (Fulfilled results) \<noteq> [] \<and>
          within_window b (Fulfilled results)"
  then have pass: "\<not> (fst (MinMax (Fulfilled results)) < startTime b \<or>
               snd (MinMax (Fulfilled results)) > endTime b)"
    using inside_window_passes by blast
  show "\<not> (fst (MinMax (Fulfilled results)) < startTime b \<or>
            snd (MinMax (Fulfilled results)) > endTime b)" by (rule pass)
  from AddResults_passes [OF st pass]
  show "snd (snd (AddResults b results)) \<noteq>
           Some (errFulfilledRangeOutside (Fulfilled results) (startTime b, endTime b))"
    by blast
  from AddResults_passes [OF st pass]
  show "last (shardRangesSegments (fst (AddResults b results))) =
           \<lparr>shardTimeRanges = Fulfilled results, segments = incoming b results\<rparr>"
    by blast
qed

lemmas record_defs = record_A_1000_2000_def record_A_1000_4600_def record_B_1000_2000_def
  record_outside_def record_no_ranges_def segment_S1_def segment_S2_def

lemmas ranges_defs = MinMax_def allRanges_def zeroTime_def Subtract_def removeRanges_def
  removeRange_def shardRanges_def IsEmpty_def currFulfilled_def AddRanges_def Copy_def

lemma bootstrapped_block_example_eq:
  "bootstrapped_block_example =
     open_block_example\<lparr>shardRangesSegments :=
       [\<lparr>shardTimeRanges = [(1, [(1000, 2000)])], segments = [segment_S1]\<rparr>]\<rparr>"
  by (simp add: bootstrapped_block_example_def AddResults_def ex_defs record_defs ranges_defs
      IsSealedWithRLock_def FinalError_def)

theorem AddResults_replace_or_append_witness:
  "state bootstrapped_block_example \<noteq> blockStateClosed \<and>
   \<not> (fst (MinMax (Fulfilled record_A_1000_4600)) < startTime bootstrapped_block_example \<or>
      snd (MinMax (Fulfilled record_A_1000_4600)) > endTime bootstrapped_block_example) \<and>
   IsEmpty (Subtract (currFulfilled bootstrapped_block_example) (Fulfilled record_A_1000_4600)) \<and>
   AddResults bootstrapped_block_example record_A_1000_4600 =
     (bootstrapped_block_example\<lparr>shardRangesSegments :=
        [\<lparr>shardTimeRanges = [(1, [(1000, 4600)])], segments = [segment_S2]\<rparr>]\<rparr>,
      [segment_S1\<lparr>seg_closed := True\<rparr>], None) \<and>
   \<not> (fst (MinMax (Fulfilled record_B_1000_2000)) < startTime bootstrapped_block_example \<or>
      snd (MinMax (Fulfilled record_B_1000_2000)) > endTime bootstrapped_block_example) \<and>
   \<not> IsEmpty (Subtract (currFulfilled bootstrapped_block_example) (Fulfilled record_B_1000_2000)) \<and>
   AddResults bootstrapped_block_example record_B_1000_2000 =
     (bootstrapped_block_example\<lparr>shardRangesSegments :=
        [\<lparr>shardTimeRanges = [(1, [(1000, 2000)])], segments = [segment_S1]\<rparr>,
         \<lparr>shardTimeRanges = [(2, [(1000, 2000)])], segments = [segment_S2]\<rparr>]\<rparr>,
      [], None)"
  using AddResults_replace_or_append [of bootstrapped_block_example record_A_1000_4600]
    AddResults_replace_or_append [of bootstrapped_block_example record_B_1000_2000]
  by (simp add: bootstrapped_block_example_eq AddResults_def ex_defs record_defs ranges_defs
      IsSealedWithRLock_def FinalError_def seg_Close_def multiErr_Add_def)

lemma within_window_example:
  "within_window open_block_example (Fulfilled record_A_1000_2000)"
  by (auto simp: within_window_def str_points_def ranges_points_def range_points_def
      ex_defs record_defs)

lemma outside_window_example: "\<not> within_window b (Fulfilled record_outside)"
  if "endTime b = 4600" for b
proof -
  have "(2, 4600) \<in> str_points (Fulfilled record_outside)"
    by (simp add: str_points_def ranges_points_def range_points_def record_defs)
  with that show ?thesis by (force simp: within_window_def)
qed

lemma closed_block_example_eq:
  "closed_block_example =
     open_block_example\<lparr>state := blockStateClosed, activeSegments := [], closeCtxDone := True\<rparr>"
  by (simp add: closed_block_example_def Close_def a_Close_def
      seg_Close_def FinalError_def multiErr_Add_def ex_defs split: prod.splits)

theorem AddResults_range_check_witness:
  "state closed_block_example = blockStateClosed \<and>
   AddResults closed_block_example record_A_1000_2000 =
     (closed_block_example, [], Some errUnableToBootstrapBlockClosed) \<and>
   state open_block_example \<noteq> blockStateClosed \<and>
   \<not> within_window open_block_example (Fulfilled record_outside) \<and>
   AddResults open_block_example record_outside =
     (open_block_example, [],
      Some (errFulfilledRangeOutside [(2, [(1000, 4601)])] (1000, 4600))) \<and>
   allRanges (Fulfilled record_no_ranges) = [] \<and>
   zeroTime < startTime open_block_example \<and>
   AddResults open_block_example record_no_ranges =
     (open_block_example, [], Some (errFulfilledRangeOutside [] (1000, 4600))) \<and>
   \<not> (zeroTime < startTime (NewBlock 0 0 3600) \<or>
      endTime (NewBlock 0 0 3600) < zeroTime) \<and>
   shardRangesSegments (fst (AddResults (NewBlock 0 0 3600) record_no_ranges)) =
     [\<lparr>shardTimeRanges = [], segments = [segment_S2]\<rparr>] \<and>
   wf_ranges (Fulfilled record_A_1000_2000) \<and> allRanges (Fulfilled record_A_1000_2000) \<noteq> [] \<and>
   within_window open_block_example (Fulfilled record_A_1000_2000) \<and>
   shardRangesSegments (fst (AddResults open_block_example record_A_1000_2000)) =
     [\<lparr>shardTimeRanges = [(1, [(1000, 2000)])], segments = [segment_S1]\<rparr>]"
proof -
  have e: "endTime open_block_example = 4600" by (simp add: ex_defs)
  have s: "state open_block_example \<noteq> blockStateClosed" by (simp add: ex_defs)
  have c: "state closed_block_example = blockStateClosed"
    by (simp add: closed_block_example_eq)
  have w: "wf_ranges (Fulfilled record_A_1000_2000) \<and> allRanges (Fulfilled record_A_1000_2000) \<noteq> []"
    by (simp add: wf_ranges_def allRanges_def record_defs)
  have n: "allRanges (Fulfilled record_no_ranges) = []"
    by (simp add: allRanges_def record_defs)
  show ?thesis
    using AddResults_range_check [of closed_block_example record_A_1000_2000]
      AddResults_range_check [of open_block_example record_outside]
      AddResults_range_check [of open_block_example record_no_ranges]
      AddResults_range_check [of "NewBlock 0 0 3600" record_no_ranges]
      AddResults_range_check [of open_block_example record_A_1000_2000]
      outside_window_example [OF e] within_window_example w s c n
    by (simp add: AddResults_def ex_defs record_defs ranges_defs
      IsSealedWithRLock_def FinalError_def incoming_def)
qed

text \<open>
  Claim C7 as stated fails in two ways. On a Closed block the state is checked first,
  so a record reaching outside the window is refused with the closed error, not with
  the range-mismatch error. And on an Open block with the window \<open>[1000, 4600)\<close> a
  record with no fulfilled range at all, whose ranges lie within the window (there is
  none), is refused with the range-mismatch error: the least start and greatest end of
  no range are the zero time, which is before \<open>startTime\<close>.
\<close>

theorem AddResults_range_check_counterexample:
  "\<not> within_window closed_block_example (Fulfilled record_outside) \<and>
   state closed_block_example = blockStateClosed \<and>
   AddResults closed_block_example record_outside =
     (closed_block_example, [], Some errUnableToBootstrapBlockClosed) \<and>
   Some errUnableToBootstrapBlockClosed \<noteq>
     Some (errFulfilledRangeOutside (Fulfilled record_outside)
             (startTime closed_block_example, endTime closed_block_example)) \<and>
   state open_block_example = blockStateOpen \<and>
   startTime open_block_example = 1000 \<and> endTime open_block_example = 4600 \<and>
   Fulfilled record_no_ranges = [] \<and>
   str_points (Fulfilled record_no_ranges) = {} \<and>
   within_window open_block_example (Fulfilled record_no_ranges) \<and>
   AddResults open_block_example record_no_ranges =
     (open_block_example, [], Some (errFulfilledRangeOutside [] (1000, 4600)))"
proof -
  have e: "endTime closed_block_example = 4600"
    by (simp add: closed_block_example_eq ex_defs)
  have s: "state closed_block_example = blockStateClosed"
    by (simp add: closed_block_example_eq)
  have c: "AddResults closed_block_example record_outside =
     (closed_block_example, [], Some errUnableToBootstrapBlockClosed)"
    using s by (simp add: AddResults_def)
  have o: "state open_block_example = blockStateOpen \<and>
     startTime open_block_example = 1000 \<and> endTime open_block_example = 4600"
    by (simp add: ex_defs)
  have f: "Fulfilled record_no_ranges = []" by (simp add: record_defs)
  have p: "str_points (Fulfilled record_no_ranges) = {}" by (simp add: f str_points_def)
  have w: "within_window open_block_example (Fulfilled record_no_ranges)"
    by (simp add: p within_window_def)
  have r: "AddResults open_block_example record_no_ranges =
     (open_block_example, [], Some (errFulfilledRangeOutside [] (1000, 4600)))"
    by (simp add: AddResults_def f ranges_defs ex_defs)
  from outside_window_example [OF e] s c o f p w r show ?thesis by simp
qed

subsection \<open>Query\<close>

lemma add_split:
  "add r d = ((fst (fst (add r d)), addSize add r d, addErr add r d), addResults add r d)"
  by (simp add: addSize_def addErr_def addResults_def)

lemma queryLoop_Cons:
  "queryLoop add limit sz (d # ds) r =
     (if limitReached limit sz then (r, True, None)
      else (case addErr add r d of
              Some err \<Rightarrow> (addResults add r d, False, Some err)
            | None \<Rightarrow> queryLoop add limit (addSize add r d) ds (addResults add r d)))"
proof -
  obtain p r1 where p: "add r d = (p, r1)" by (cases "add r d")
  obtain x s e where "p = (x, s, e)" by (cases p)
  with p have a: "add r d = ((x, s, e), r1)" by simp
  show ?thesis
    by (cases e) (simp_all add: a limitReached_def addSize_def addErr_def addResults_def)
qed

lemma queryLoop_no_error:
  "queryLoop add limit sz ds r = (r', broke, None) \<Longrightarrow>
   r' = foldl (addResults add) r (take (consumed add limit sz r ds) ds) \<and>
   broke = (consumed add limit sz r ds < length ds)"
proof (induction ds arbitrary: sz r)
  case Nil
  then show ?case by (simp add: consumed_def)
next
  case (Cons d ds)
  from Cons.prems have p:
    "(if limitReached limit sz then (r, True, None)
      else (case addErr add r d of
              Some err \<Rightarrow> (addResults add r d, False, Some err)
            | None \<Rightarrow> queryLoop add limit (addSize add r d) ds (addResults add r d))) =
     (r', broke, None)"
    by (simp only: queryLoop_Cons)
  show ?case
  proof (cases "limitReached limit sz")
    case True
    with p show ?thesis by (simp add: consumed_def)
  next
    case False
    with p have e: "addErr add r d = None" by (cases "addErr add r d") simp_all
    with False p
    have "queryLoop add limit (addSize add r d) ds (addResults add r d) = (r', broke, None)"
      by simp
    from Cons.IH [OF this] False show ?thesis by (simp add: consumed_def)
  qed
qed

lemma queryLoop_returns:
  "\<forall>r d. addErr add r d = None \<Longrightarrow> snd (snd (queryLoop add limit sz ds r)) = None"
proof (induction ds arbitrary: sz r)
  case Nil
  then show ?case by simp
next
  case (Cons d ds)
  then show ?case by (simp add: queryLoop_Cons del: queryLoop.simps)
qed

lemma length_sizesBefore: "length (sizesBefore add sz r ds) = length ds"
  by (induction ds arbitrary: sz r) auto

lemma consumed_le: "consumed add limit sz r ds \<le> length ds"
  unfolding consumed_def
  using length_takeWhile_le [of _ "sizesBefore add sz r ds"] by (simp add: length_sizesBefore)

lemma consumed_stop:
  "consumed add limit sz r ds < length ds \<Longrightarrow>
   limitReached limit (sizesBefore add sz r ds ! consumed add limit sz r ds)"
  unfolding consumed_def
  using nth_length_takeWhile [of "\<lambda>s. \<not> limitReached limit s" "sizesBefore add sz r ds"]
  by (simp add: length_sizesBefore)

lemma consumed_go:
  "k < consumed add limit sz r ds \<Longrightarrow> \<not> limitReached limit (sizesBefore add sz r ds ! k)"
  unfolding consumed_def
  using set_takeWhileD [of "takeWhile (\<lambda>s. \<not> limitReached limit s) (sizesBefore add sz r ds) ! k"
      "\<lambda>s. \<not> limitReached limit s" "sizesBefore add sz r ds"]
    takeWhile_nth [of k "\<lambda>s. \<not> limitReached limit s" "sizesBefore add sz r ds"]
    nth_mem [of k "takeWhile (\<lambda>s. \<not> limitReached limit s) (sizesBefore add sz r ds)"]
  by simp

lemma consumed_no_limit: "limit \<le> 0 \<Longrightarrow> consumed add limit sz r ds = length ds"
proof -
  assume "limit \<le> 0"
  then have "takeWhile (\<lambda>s. \<not> limitReached limit s) xs = xs" for xs
    by (simp add: limitReached_def)
  then show ?thesis unfolding consumed_def by (simp only: length_sizesBefore)
qed

lemma Query_open:
  assumes "state b \<noteq> blockStateClosed" and "executorWithRLock b = Inr exec"
    and "executeErr faults = None"
    and "queryLoop resAdd (Limit opts) (resSize results) (filter q (concat (readers exec)))
           results = (r1, br, e1)"
  shows "Query faults resSize resAdd b q opts results =
     (case e1 of
        Some err \<Rightarrow> (r1, False, Some err)
      | None \<Rightarrow>
         (case iterErr faults of
            Some err \<Rightarrow> (r1, False, Some err)
          | None \<Rightarrow>
             (case iterCloseErr faults of
                Some err \<Rightarrow> (r1, False, Some err)
              | None \<Rightarrow>
                 (case execCloseErr faults of
                    Some err \<Rightarrow> (r1, False, Some err)
                  | None \<Rightarrow> (r1, \<not> br, None)))))"
  using assms by (cases e1; cases "iterErr faults") (simp_all add: Query_def Execute_def)

lemma Query_no_error_run:
  assumes q: "Query faults resSize resAdd b q opts results = (results', exhaustive, None)"
  shows "\<exists>exec broke. executorWithRLock b = Inr exec \<and>
           queryLoop resAdd (Limit opts) (resSize results) (filter q (concat (readers exec)))
             results = (results', broke, None) \<and>
           exhaustive = (\<not> broke)"
proof -
  have st: "state b \<noteq> blockStateClosed"
  proof
    assume "state b = blockStateClosed"
    with q show False by (simp add: Query_def)
  qed
  obtain exec where ex: "executorWithRLock b = Inr exec"
  proof (cases "executorWithRLock b")
    case (Inl e)
    obtain err cl where "e = (err, cl)" by (cases e)
    with q st Inl show ?thesis by (simp add: Query_def)
  next
    case (Inr exec)
    then show ?thesis by (rule that)
  qed
  have ee: "executeErr faults = None"
  proof (cases "executeErr faults")
    case None
    then show ?thesis .
  next
    case (Some err)
    with q st ex show ?thesis by (simp add: Query_def Execute_def)
  qed
  define docs where "docs = filter q (concat (readers exec))"
  obtain r1 rest where l1: "queryLoop resAdd (Limit opts) (resSize results) docs results = (r1, rest)"
    by (cases "queryLoop resAdd (Limit opts) (resSize results) docs results")
  obtain br e1 where l2: "rest = (br, e1)" by (cases rest)
  from l1 l2 have l: "queryLoop resAdd (Limit opts) (resSize results)
      (filter q (concat (readers exec))) results = (r1, br, e1)" by (simp add: docs_def)
  from q have c: "(case e1 of
        Some err \<Rightarrow> (r1, False, Some err)
      | None \<Rightarrow>
         (case iterErr faults of
            Some err \<Rightarrow> (r1, False, Some err)
          | None \<Rightarrow>
             (case iterCloseErr faults of
                Some err \<Rightarrow> (r1, False, Some err)
              | None \<Rightarrow>
                 (case execCloseErr faults of
                    Some err \<Rightarrow> (r1, False, Some err)
                  | None \<Rightarrow> (r1, \<not> br, None))))) = (results', exhaustive, None)"
    using Query_open [where faults = faults and resSize = resSize and resAdd = resAdd
        and opts = opts and results = results and q = q, OF st ex ee l]
    by simp
  then have "e1 = None \<and> r1 = results' \<and> exhaustive = (\<not> br)"
    by (auto split: option.splits)
  with l ex show ?thesis by auto
qed

lemma Query_returns:
  assumes "state b \<noteq> blockStateClosed" and "executorWithRLock b = Inr exec"
    and "executeErr faults = None" and "iterErr faults = None"
    and "iterCloseErr faults = None" and "execCloseErr faults = None"
    and "\<forall>r d. addErr resAdd r d = None"
  shows "snd (snd (Query faults resSize resAdd b q opts results)) = None"
proof -
  define docs where "docs = filter q (concat (readers exec))"
  obtain r1 rest where l1: "queryLoop resAdd (Limit opts) (resSize results) docs results = (r1, rest)"
    by (cases "queryLoop resAdd (Limit opts) (resSize results) docs results")
  obtain br e1 where l2: "rest = (br, e1)" by (cases rest)
  from queryLoop_returns [OF assms(7), of "Limit opts" "resSize results" docs results] l1 l2
  have e1: "e1 = None" by simp
  from l1 l2 have l: "queryLoop resAdd (Limit opts) (resSize results)
      (filter q (concat (readers exec))) results = (r1, br, e1)" by (simp add: docs_def)
  show ?thesis
    using Query_open [where faults = faults and resSize = resSize and resAdd = resAdd
        and opts = opts and results = results and q = q, OF assms(1-3) l]
    by (simp add: e1 assms(4-6))
qed

lemma Query_error_not_exhaustive:
  assumes q: "Query faults resSize resAdd b q opts results = (results', exhaustive, Some err)"
  shows "\<not> exhaustive"
proof (cases "state b = blockStateClosed")
  case True
  with q show ?thesis by (simp add: Query_def)
next
  case st: False
  show ?thesis
  proof (cases "executorWithRLock b")
    case (Inl e)
    obtain er cl where "e = (er, cl)" by (cases e)
    with q st Inl show ?thesis by (simp add: Query_def)
  next
    case (Inr exec)
    show ?thesis
    proof (cases "executeErr faults")
      case (Some e)
      with q st Inr show ?thesis by (simp add: Query_def Execute_def)
    next
      case None
      obtain r1 br e1 where l: "queryLoop resAdd (Limit opts) (resSize results)
          (filter q (concat (readers exec))) results = (r1, br, e1)"
        by (cases "queryLoop resAdd (Limit opts) (resSize results)
          (filter q (concat (readers exec))) results")
      from q have "(case e1 of
        Some err \<Rightarrow> (r1, False, Some err)
      | None \<Rightarrow>
         (case iterErr faults of
            Some err \<Rightarrow> (r1, False, Some err)
          | None \<Rightarrow>
             (case iterCloseErr faults of
                Some err \<Rightarrow> (r1, False, Some err)
              | None \<Rightarrow>
                 (case execCloseErr faults of
                    Some err \<Rightarrow> (r1, False, Some err)
                  | None \<Rightarrow> (r1, \<not> br, None))))) = (results', exhaustive, Some err)"
        using Query_open [where faults = faults and resSize = resSize and resAdd = resAdd
            and opts = opts and results = results and q = q, OF st Inr None l]
        by simp
      then show ?thesis by (auto split: option.splits)
    qed
  qed
qed

lemma Query_fault_fails:
  assumes "state b = blockStateClosed \<or> (\<exists>e cl. executorWithRLock b = Inl (e, cl)) \<or>
     (\<exists>exec. executorWithRLock b = Inr exec \<and>
        snd (snd (queryLoop resAdd (Limit opts) (resSize results)
                    (filter q (concat (readers exec))) results)) \<noteq> None) \<or>
     executeErr faults \<noteq> None \<or> iterErr faults \<noteq> None \<or> iterCloseErr faults \<noteq> None \<or>
     execCloseErr faults \<noteq> None"
  shows "\<exists>r e. Query faults resSize resAdd b q opts results = (r, False, Some e)"
proof (cases "state b = blockStateClosed")
  case True
  then show ?thesis by (simp add: Query_def)
next
  case st: False
  show ?thesis
  proof (cases "executorWithRLock b")
    case (Inl e)
    obtain er cl where "e = (er, cl)" by (cases e)
    with st Inl show ?thesis by (simp add: Query_def)
  next
    case (Inr exec)
    show ?thesis
    proof (cases "executeErr faults")
      case (Some e)
      with st Inr show ?thesis by (simp add: Query_def Execute_def)
    next
      case None
      obtain r1 br e1 where l: "queryLoop resAdd (Limit opts) (resSize results)
          (filter q (concat (readers exec))) results = (r1, br, e1)"
        by (cases "queryLoop resAdd (Limit opts) (resSize results)
          (filter q (concat (readers exec))) results")
      from assms st Inr None l
      have f: "e1 \<noteq> None \<or> iterErr faults \<noteq> None \<or> iterCloseErr faults \<noteq> None \<or>
          execCloseErr faults \<noteq> None" by auto
      have "Query faults resSize resAdd b q opts results =
       (case e1 of
        Some err \<Rightarrow> (r1, False, Some err)
      | None \<Rightarrow>
         (case iterErr faults of
            Some err \<Rightarrow> (r1, False, Some err)
          | None \<Rightarrow>
             (case iterCloseErr faults of
                Some err \<Rightarrow> (r1, False, Some err)
              | None \<Rightarrow>
                 (case execCloseErr faults of
                    Some err \<Rightarrow> (r1, False, Some err)
                  | None \<Rightarrow> (r1, \<not> br, None)))))"
        by (rule Query_open [where faults = faults and resSize = resSize and resAdd = resAdd
            and opts = opts and results = results and q = q, OF st Inr None l])
      with f show ?thesis by (auto split: option.splits)
    qed
  qed
qed

text \<open>
  Claim C9, as amended. For every Query that returns without an error: the documents
  the executor yields are taken in order, and the loop stops in front of a document
  exactly when \<open>opts.Limit > 0\<close> and the size has reached the limit, so that the
  documents added are those in front of the first such document; \<open>exhaustive\<close> is
  true if and only if the loop never broke early, that is, every document was taken.
  With \<open>Limit \<le> 0\<close> every matching document is added and \<open>exhaustive\<close> is true.
  And Query does return without an error on a block that is not Closed when the
  readers are acquired, the library reports no error and \<open>results.Add\<close> never fails.
  A Query that returns an error returns \<open>exhaustive\<close> false, whether or not the loop
  broke early. On a Closed block Query returns the closed-block error and leaves the
  results as they are. And Query returns an error, with \<open>exhaustive\<close> false, on a
  Closed block, when a reader cannot be acquired, when \<open>results.Add\<close> fails in the
  course of the loop, and when the library reports an error from \<open>Execute\<close>, from the
  iterator, or from closing the iterator or the executor.
\<close>

theorem Query_limit_exhaustive:
  "(Query faults resSize resAdd b q opts results = (results', exhaustive, None) \<longrightarrow>
      (\<exists>exec. executorWithRLock b = Inr exec \<and>
         (let docs = filter q (concat (readers exec));
              n = consumed resAdd (Limit opts) (resSize results) results docs;
              sizes = sizesBefore resAdd (resSize results) results docs
          in results' = foldl (addResults resAdd) results (take n docs) \<and>
             exhaustive = (n = length docs) \<and>
             (\<forall>k < n. \<not> (Limit opts > 0 \<and> sizes ! k \<ge> Limit opts)) \<and>
             (n < length docs \<longrightarrow> Limit opts > 0 \<and> sizes ! n \<ge> Limit opts) \<and>
             (Limit opts \<le> 0 \<longrightarrow>
                results' = foldl (addResults resAdd) results docs \<and> exhaustive)))) \<and>
   (state b \<noteq> blockStateClosed \<and> (\<exists>exec. executorWithRLock b = Inr exec) \<and>
    executeErr faults = None \<and> iterErr faults = None \<and> iterCloseErr faults = None \<and>
    execCloseErr faults = None \<and> (\<forall>r d. addErr resAdd r d = None) \<longrightarrow>
      snd (snd (Query faults resSize resAdd b q opts results)) = None) \<and>
   (Query faults resSize resAdd b q opts results = (results', exhaustive, Some err) \<longrightarrow>
      \<not> exhaustive) \<and>
   (state b = blockStateClosed \<longrightarrow>
      Query faults resSize resAdd b q opts results =
        (results, False, Some errUnableToQueryBlockClosed)) \<and>
   (state b = blockStateClosed \<or> (\<exists>e cl. executorWithRLock b = Inl (e, cl)) \<or>
    (\<exists>exec. executorWithRLock b = Inr exec \<and>
       snd (snd (queryLoop resAdd (Limit opts) (resSize results)
                   (filter q (concat (readers exec))) results)) \<noteq> None) \<or>
    executeErr faults \<noteq> None \<or> iterErr faults \<noteq> None \<or> iterCloseErr faults \<noteq> None \<or>
    execCloseErr faults \<noteq> None \<longrightarrow>
      (\<exists>r e. Query faults resSize resAdd b q opts results = (r, False, Some e)))"
proof (intro conjI impI)
  assume "Query faults resSize resAdd b q opts results = (results', exhaustive, None)"
  from Query_no_error_run [OF this] obtain exec broke where
    ex: "executorWithRLock b = Inr exec" and
    ql: "queryLoop resAdd (Limit opts) (resSize results) (filter q (concat (readers exec)))
             results = (results', broke, None)" and
    eb: "exhaustive = (\<not> broke)" by blast
  define docs where "docs = filter q (concat (readers exec))"
  define n where "n = consumed resAdd (Limit opts) (resSize results) results docs"
  define sizes where "sizes = sizesBefore resAdd (resSize results) results docs"
  from ql have ql': "queryLoop resAdd (Limit opts) (resSize results) docs results =
      (results', broke, None)" by (simp only: docs_def)
  from queryLoop_no_error [OF ql']
  have r: "results' = foldl (addResults resAdd) results (take n docs)"
    and b: "broke = (n < length docs)" unfolding n_def by blast+
  have le: "n \<le> length docs" unfolding n_def by (rule consumed_le)
  from b eb le have e: "exhaustive = (n = length docs)" by auto
  have go: "\<forall>k < n. \<not> (Limit opts > 0 \<and> sizes ! k \<ge> Limit opts)"
  proof (intro allI impI)
    fix k assume "k < n"
    then have "k < consumed resAdd (Limit opts) (resSize results) results docs"
      by (simp only: n_def)
    from consumed_go [OF this] show "\<not> (Limit opts > 0 \<and> sizes ! k \<ge> Limit opts)"
      by (simp add: sizes_def limitReached_def)
  qed
  have stop: "n < length docs \<longrightarrow> Limit opts > 0 \<and> sizes ! n \<ge> Limit opts"
  proof
    assume "n < length docs"
    then have "consumed resAdd (Limit opts) (resSize results) results docs < length docs"
      by (simp only: n_def)
    from consumed_stop [OF this] show "Limit opts > 0 \<and> sizes ! n \<ge> Limit opts"
      by (simp add: sizes_def n_def limitReached_def)
  qed
  have nolimit: "Limit opts \<le> 0 \<longrightarrow>
      results' = foldl (addResults resAdd) results docs \<and> exhaustive"
  proof
    assume "Limit opts \<le> 0"
    from consumed_no_limit [OF this, of resAdd "resSize results" results docs]
    have "n = length docs" by (simp only: n_def)
    with r e show "results' = foldl (addResults resAdd) results docs \<and> exhaustive" by simp
  qed
  have all: "results' = foldl (addResults resAdd) results (take n docs) \<and>
             exhaustive = (n = length docs) \<and>
             (\<forall>k < n. \<not> (Limit opts > 0 \<and> sizes ! k \<ge> Limit opts)) \<and>
             (n < length docs \<longrightarrow> Limit opts > 0 \<and> sizes ! n \<ge> Limit opts) \<and>
             (Limit opts \<le> 0 \<longrightarrow>
                results' = foldl (addResults resAdd) results docs \<and> exhaustive)"
    by (rule conjI [OF r conjI [OF e conjI [OF go conjI [OF stop nolimit]]]])
  have "executorWithRLock b = Inr exec \<and>
         (let docs = filter q (concat (readers exec));
              n = consumed resAdd (Limit opts) (resSize results) results docs;
              sizes = sizesBefore resAdd (resSize results) results docs
          in results' = foldl (addResults resAdd) results (take n docs) \<and>
             exhaustive = (n = length docs) \<and>
             (\<forall>k < n. \<not> (Limit opts > 0 \<and> sizes ! k \<ge> Limit opts)) \<and>
             (n < length docs \<longrightarrow> Limit opts > 0 \<and> sizes ! n \<ge> Limit opts) \<and>
             (Limit opts \<le> 0 \<longrightarrow>
                results' = foldl (addResults resAdd) results docs \<and> exhaustive))"
    unfolding Let_def by (rule conjI [OF ex all [unfolded docs_def n_def sizes_def]])
  then show "\<exists>exec. executorWithRLock b = Inr exec \<and>
         (let docs = filter q (concat (readers exec));
              n = consumed resAdd (Limit opts) (resSize results) results docs;
              sizes = sizesBefore resAdd (resSize results) results docs
          in results' = foldl (addResults resAdd) results (take n docs) \<and>
             exhaustive = (n = length docs) \<and>
             (\<forall>k < n. \<not> (Limit opts > 0 \<and> sizes ! k \<ge> Limit opts)) \<and>
             (n < length docs \<longrightarrow> Limit opts > 0 \<and> sizes ! n \<ge> Limit opts) \<and>
             (Limit opts \<le> 0 \<longrightarrow>
                results' = foldl (addResults resAdd) results docs \<and> exhaustive))"
    by (rule exI)
next
  assume a: "state b \<noteq> blockStateClosed \<and> (\<exists>exec. executorWithRLock b = Inr exec) \<and>
    executeErr faults = None \<and> iterErr faults = None \<and> iterCloseErr faults = None \<and>
    execCloseErr faults = None \<and> (\<forall>r d. addErr resAdd r d = None)"
  then obtain exec where ex: "executorWithRLock b = Inr exec" by blast
  from a have st: "state b \<noteq> blockStateClosed" and f1: "executeErr faults = None"
    and f2: "iterErr faults = None" and f3: "iterCloseErr faults = None"
    and f4: "execCloseErr faults = None" and ad: "\<forall>r d. addErr resAdd r d = None"
    by blast+
  show "snd (snd (Query faults resSize resAdd b q opts results)) = None"
    by (rule Query_returns [OF st ex f1 f2 f3 f4 ad])
next
  assume "Query faults resSize resAdd b q opts results = (results', exhaustive, Some err)"
  then show "\<not> exhaustive" by (rule Query_error_not_exhaustive)
next
  assume "state b = blockStateClosed"
  then show "Query faults resSize resAdd b q opts results =
        (results, False, Some errUnableToQueryBlockClosed)"
    by (simp add: Query_def)
next
  assume "state b = blockStateClosed \<or> (\<exists>e cl. executorWithRLock b = Inl (e, cl)) \<or>
    (\<exists>exec. executorWithRLock b = Inr exec \<and>
       snd (snd (queryLoop resAdd (Limit opts) (resSize results)
                   (filter q (concat (readers exec))) results)) \<noteq> None) \<or>
    executeErr faults \<noteq> None \<or> iterErr faults \<noteq> None \<or> iterCloseErr faults \<noteq> None \<or>
    execCloseErr faults \<noteq> None"
  then show "\<exists>r e. Query faults resSize resAdd b q opts results = (r, False, Some e)"
    by (rule Query_fault_fails)
qed

lemmas query_ex_defs = Query_def executorWithRLock_def a_Reader_def a_segment_def seg_Reader_def
  NewExecutor_def Execute_def no_faults_def list_Size_def list_Add_def failing_Add_def

theorem Query_limit_exhaustive_witness:
  "Query no_faults list_Size list_Add ten_docs_block_example (\<lambda>d. True) \<lparr>Limit = 3\<rparr> [] =
     ([1, 2, 3], False, None) \<and>
   Query no_faults list_Size list_Add ten_docs_block_example (\<lambda>d. True) \<lparr>Limit = 0\<rparr> [] =
     ([1, 2, 3, 4, 5, 6, 7, 8, 9, 10], True, None) \<and>
   state ten_docs_block_example \<noteq> blockStateClosed \<and>
   executorWithRLock ten_docs_block_example = Inr \<lparr>readers = [[1, 2, 3, 4, 5, 6, 7, 8, 9, 10]]\<rparr> \<and>
   (\<forall>r d. addErr list_Add r d = None) \<and>
   state closed_block_example = blockStateClosed \<and>
   Query no_faults list_Size list_Add closed_block_example (\<lambda>d. True) \<lparr>Limit = 3\<rparr> [7] =
     ([7], False, Some errUnableToQueryBlockClosed) \<and>
   iterErr (no_faults\<lparr>iterErr := Some (errLibrary 3)\<rparr>) \<noteq> None \<and>
   Query (no_faults\<lparr>iterErr := Some (errLibrary 3)\<rparr>) list_Size list_Add ten_docs_block_example
       (\<lambda>d. True) \<lparr>Limit = 3\<rparr> [] =
     ([1, 2, 3], False, Some (errLibrary 3))"
proof -
  have t1: "Query no_faults list_Size list_Add ten_docs_block_example (\<lambda>d. True)
      \<lparr>Limit = 3\<rparr> [] = ([1, 2, 3], False, None)"
    by (simp add: query_ex_defs ten_docs_block_example_def)
  have t2: "Query no_faults list_Size list_Add ten_docs_block_example (\<lambda>d. True)
      \<lparr>Limit = 0\<rparr> [] = ([1, 2, 3, 4, 5, 6, 7, 8, 9, 10], True, None)"
    by (simp add: query_ex_defs ten_docs_block_example_def)
  have t3: "state ten_docs_block_example \<noteq> blockStateClosed"
    "executorWithRLock ten_docs_block_example =
       Inr \<lparr>readers = [[1, 2, 3, 4, 5, 6, 7, 8, 9, 10]]\<rparr>"
    "\<forall>r d. addErr list_Add r d = None"
    by (simp_all add: query_ex_defs ten_docs_block_example_def addErr_def)
  have c: "state closed_block_example = blockStateClosed"
    by (simp add: closed_block_example_eq)
  note closed = Query_limit_exhaustive [of no_faults list_Size list_Add closed_block_example
      "\<lambda>d. True" "\<lparr>Limit = 3\<rparr>" "[7]", THEN conjunct2, THEN conjunct2, THEN conjunct2,
      THEN conjunct1, rule_format, OF c]
  have t5: "iterErr (no_faults\<lparr>iterErr := Some (errLibrary 3)\<rparr>) \<noteq> None"
    "Query (no_faults\<lparr>iterErr := Some (errLibrary 3)\<rparr>) list_Size list_Add
       ten_docs_block_example (\<lambda>d. True) \<lparr>Limit = 3\<rparr> [] =
     ([1, 2, 3], False, Some (errLibrary 3))"
    by (simp_all add: query_ex_defs ten_docs_block_example_def)
  show ?thesis
    using Query_limit_exhaustive [of no_faults list_Size list_Add ten_docs_block_example
        "\<lambda>d. True" "\<lparr>Limit = 3\<rparr>" "[]" "[1, 2, 3]" False]
      Query_limit_exhaustive [of no_faults list_Size list_Add ten_docs_block_example
        "\<lambda>d. True" "\<lparr>Limit = 0\<rparr>" "[]" "[1, 2, 3, 4, 5, 6, 7, 8, 9, 10]" True]
      Query_limit_exhaustive [of "no_faults\<lparr>iterErr := Some (errLibrary 3)\<rparr>" list_Size
        list_Add ten_docs_block_example "\<lambda>d. True" "\<lparr>Limit = 3\<rparr>" "[]" "[1, 2, 3]" False
        "errLibrary 3"]
    by - (intro conjI, simp_all only: t1 t2 t3 t5 c closed simp_thms)
qed

text \<open>
  Claim C9 as stated ("for every Query") fails where Query returns an error: on a
  Closed block, and when \<open>results.Add\<close> fails, the loop never breaks early and yet
  the flag returned is false, also with \<open>Limit = 0\<close>.
\<close>

theorem Query_limit_exhaustive_counterexample:
  "state closed_block_example = blockStateClosed \<and>
   Query no_faults list_Size list_Add closed_block_example (\<lambda>d. True) \<lparr>Limit = 0\<rparr> [] =
     ([], False, Some errUnableToQueryBlockClosed) \<and>
   Query no_faults list_Size failing_Add ten_docs_block_example (\<lambda>d. True) \<lparr>Limit = 0\<rparr> [] =
     ([], False, Some (errLibrary 2))"
  by (simp add: query_ex_defs ten_docs_block_example_def closed_block_example_eq)

lemma activeSegmentReaders_fst_only:
  "activeSegmentReaders segs rs =
     activeSegmentReaders (filter (\<lambda>seg. astate seg = fstActiveSegmentState) segs) rs"
  by (induction segs arbitrary: rs) (auto split: sum.splits)

text \<open>
  Claim C1 says that the executor reads every active segment in the Mutable or the FST
  state. The loop of executorWithRLock skips every active segment whose state is not
  FST, although its comment announces "the segment that's being actively written to".
  Two documents are written to a fresh block and acknowledged; the block is Open, its
  one active segment is Mutable and its reader would yield both documents; the
  executor is built from no reader at all, and a query matching everything returns
  nothing.
\<close>

theorem executorWithRLock_skips_mutable_segment:
  "WriteBatch ins_all 10 10 open_block_example [(1, Unmarked), (2, Unmarked)] =
     Some (written_block_example, [(1, MarkedSuccess), (2, MarkedSuccess)],
           \<lparr>NumSuccess = 2, NumError = 0\<rparr>, None) \<and>
   state written_block_example = blockStateOpen \<and>
   map astate (activeSegments written_block_example) = [mutableActiveSegmentState] \<and>
   map a_Reader (activeSegments written_block_example) = [Inr [1, 2]] \<and>
   executorWithRLock written_block_example = Inr \<lparr>readers = []\<rparr> \<and>
   Query no_faults list_Size list_Add written_block_example (\<lambda>d. True) \<lparr>Limit = 0\<rparr> [] =
     ([], True, None)"
  by (simp add: query_ex_defs written_block_example_def ex_defs WriteBatch_def
      mutableActiveSegmentWithRLock_def seg_InsertBatch_def ins_all_def batch_defs
      storeMutableSegment_def writeBatchDeferred_def seg_Size_def
      defaultMutableSegmentRotationSize_def defaultMutableSegmentRotationAge_def
      MarkUnmarkedEntriesSuccess_def Len_def)

subsection \<open>The invariant of an Open block\<close>

lemma map_eq_nth: "map f xs = map f ys \<Longrightarrow> i < length xs \<Longrightarrow> f (xs ! i) = f (ys ! i)"
  by (metis length_map nth_map)

lemma list_all_keys:
  assumes "map ptr xs' = map ptr xs" and "map astate xs' = map astate xs"
    and "\<And>a a'. ptr a' = ptr a \<Longrightarrow> astate a' = astate a \<Longrightarrow> P a \<Longrightarrow> P a'"
    and "list_all P xs"
  shows "list_all P xs'"
proof -
  have len: "length xs' = length xs" using assms(1) by (metis length_map)
  show ?thesis
    unfolding list_all_length
  proof (intro allI impI)
    fix i assume i: "i < length xs'"
    with len have "P (xs ! i)" using assms(4) by (simp add: list_all_length)
    moreover have "ptr (xs' ! i) = ptr (xs ! i)" using map_eq_nth [OF assms(1) i] .
    moreover have "astate (xs' ! i) = astate (xs ! i)" using map_eq_nth [OF assms(2) i] .
    ultimately show "P (xs' ! i)" using assms(3) by blast
  qed
qed

lemma binv_keys:
  assumes "binv ptrs offs b"
    and p: "map ptr (activeSegments b') = map ptr (activeSegments b)"
    and a: "map astate (activeSegments b') = map astate (activeSegments b)"
    and s: "segmentID b' = segmentID b"
    and w: "state b' = blockStateOpen \<longrightarrow> list_ex unsealedMutable (activeSegments b')"
  shows "binv ptrs offs b'"
proof -
  have set_eq: "ptr ` set (activeSegments b') = ptr ` set (activeSegments b)"
    using p by (metis set_map)
  have 1: "list_all (\<lambda>a. ptr a \<le> segmentID b') (activeSegments b')"
    using assms(1) by (intro list_all_keys [OF p a]) (auto simp: binv_def s)
  have 2: "list_all (\<lambda>a. ptr a \<in> set ptrs \<longrightarrow> astate a \<noteq> mutableActiveSegmentState)
        (activeSegments b')"
    using assms(1) by (intro list_all_keys [OF p a]) (auto simp: binv_def)
  show ?thesis
    using assms(1) w 1 2 by (simp add: binv_def p s set_eq)
qed

lemma binv_drop: "binv ptrs offs b \<Longrightarrow> binv [] [] b"
  by (simp add: binv_def list_all_iff)

lemma binv_empty:
  "state b' \<noteq> blockStateOpen \<Longrightarrow> activeSegments b' = [] \<Longrightarrow> segmentID b' = segmentID b \<Longrightarrow>
   binv ptrs offs b \<Longrightarrow> binv ptrs offs b'"
  by (simp add: binv_def list_all_iff)

lemma binv_NewBlock: "binv [] [] (NewBlock nowFn start bsize)"
  by (simp add: binv_def NewBlock_def addActiveSegmentWithLock_def Let_def unsealedMutable_def
      NewSegment_def)

lemma binv_add:
  assumes "binv ptrs offs b"
    and p: "map ptr (activeSegments b1) = map ptr (activeSegments b)"
    and a: "map astate (activeSegments b1) = map astate (activeSegments b)"
    and s: "segmentID b1 = segmentID b"
  shows "binv ptrs offs (triggerRotations (addActiveSegmentWithLock nowFn b1))"
proof -
  have set_eq: "ptr ` set (activeSegments b1) = ptr ` set (activeSegments b)"
    using p by (metis set_map)
  have 1: "list_all (\<lambda>a. ptr a \<le> segmentID b) (activeSegments b1)"
    using assms(1) by (intro list_all_keys [OF p a]) (auto simp: binv_def)
  have 2: "list_all (\<lambda>a. ptr a \<in> set ptrs \<longrightarrow> astate a \<noteq> mutableActiveSegmentState)
        (activeSegments b1)"
    using assms(1) by (intro list_all_keys [OF p a]) (auto simp: binv_def)
  have d: "distinct (map ptr (activeSegments b1))" using assms(1) by (simp add: binv_def p)
  have fresh: "segmentID b + 1 \<notin> ptr ` set (activeSegments b1)"
    using 1 by (auto simp: list_all_iff)
  have pt: "list_all (\<lambda>p. p \<le> segmentID b) ptrs"
    and of: "list_all (\<lambda>p. p \<le> segmentID b \<and> p \<notin> ptr ` set (activeSegments b)) offs"
    using assms(1) by (simp_all add: binv_def)
  have fresh_ptrs: "segmentID b + 1 \<notin> set ptrs" using pt by (auto simp: list_all_iff)
  show ?thesis
    using 1 2 d fresh pt of fresh_ptrs
    by (auto simp: binv_def triggerRotations_def addActiveSegmentWithLock_def Let_def s
        unsealedMutable_def NewSegment_def list_all_iff set_eq)
qed

lemma map_updateFirst:
  "(\<And>x. g (f x) = g x) \<Longrightarrow> map g (updateFirst P f xs) = map g xs"
  by (induction xs) auto

lemma updateFirst_ex:
  "find P xs = Some a \<Longrightarrow> (W a \<Longrightarrow> W (f a)) \<Longrightarrow> list_ex W xs \<Longrightarrow>
   list_ex W (updateFirst P f xs)"
  by (induction xs) (auto split: if_splits)

lemma storeMutableSegment_keys:
  "map ptr (activeSegments (storeMutableSegment m b)) = map ptr (activeSegments b)"
  "map astate (activeSegments (storeMutableSegment m b)) = map astate (activeSegments b)"
  "segmentID (storeMutableSegment m b) = segmentID b"
  "state (storeMutableSegment m b) = state b"
  by (simp_all add: storeMutableSegment_def map_updateFirst)

lemma binv_store:
  assumes "binv ptrs offs b"
    and f: "mutableActiveSegmentWithRLock b = Some a" and m: "mutableSegment a = Some m"
    and e: "seg_sealed m' = seg_sealed m"
  shows "binv ptrs offs (storeMutableSegment m' b)"
proof (rule binv_keys [OF assms(1) storeMutableSegment_keys(1,2,3)], intro impI)
  assume "state (storeMutableSegment m' b) = blockStateOpen"
  then have "list_ex unsealedMutable (activeSegments b)"
    using assms(1) by (simp add: binv_def storeMutableSegment_keys)
  moreover have "find (\<lambda>seg. astate seg = mutableActiveSegmentState) (activeSegments b) = Some a"
    using f by (simp add: mutableActiveSegmentWithRLock_def)
  moreover have "unsealedMutable a \<Longrightarrow> unsealedMutable (a\<lparr>mutableSegment := Some m'\<rparr>)"
    using m e by (simp add: unsealedMutable_def)
  ultimately show "list_ex unsealedMutable (activeSegments (storeMutableSegment m' b))"
    unfolding storeMutableSegment_def by (simp add: updateFirst_ex)
qed

lemma seg_InsertBatch_sealed:
  "seg_InsertBatch ins m docs = (m', e) \<Longrightarrow> seg_sealed m' = seg_sealed m"
  by (auto simp: seg_InsertBatch_def split: prod.splits)

lemma WriteBatch_block:
  assumes w: "WriteBatch ins now nowFn b inserts = Some (b', inserts', res, err)"
  shows "b' = b \<or>
     (\<exists>a m m' e. mutableActiveSegmentWithRLock b = Some a \<and> mutableSegment a = Some m \<and>
        seg_InsertBatch ins m (PendingDocs inserts) = (m', e) \<and>
        b' = writeBatchDeferred now nowFn a m' (storeMutableSegment m' b))"
proof (cases "state b \<noteq> blockStateOpen")
  case True
  with w show ?thesis by (simp add: WriteBatch_def Let_def)
next
  case False
  then have st: "state b = blockStateOpen" by simp
  show ?thesis
  proof (cases "mutableActiveSegmentWithRLock b")
    case None
    with w st show ?thesis by (simp add: WriteBatch_def)
  next
    case (Some a)
    note a = this
    show ?thesis
    proof (cases "mutableSegment a")
      case None
      with w st a show ?thesis by (simp add: WriteBatch_def Let_def)
    next
      case (Some m)
      obtain m' e where i: "seg_InsertBatch ins m (PendingDocs inserts) = (m', e)"
        by (cases "seg_InsertBatch ins m (PendingDocs inserts)")
      have "b' = writeBatchDeferred now nowFn a m' (storeMutableSegment m' b)"
      proof (cases e)
        case None
        with w st a Some i show ?thesis by (simp add: WriteBatch_def Let_def)
      next
        case (Some x)
        note x = this
        show ?thesis
        proof (cases "\<exists>errs. x = BatchPartialError errs")
          case True
          then obtain errs where "x = BatchPartialError errs" by blast
          with w st a \<open>mutableSegment a = Some m\<close> i x show ?thesis
            by (cases "markPartialErrors errs (unmarkedFirst inserts)")
              (simp_all add: WriteBatch_def Let_def)
        next
          case False
          with w st a \<open>mutableSegment a = Some m\<close> i x show ?thesis
            by (cases x) (simp_all add: WriteBatch_def Let_def)
        qed
      qed
      with a Some i show ?thesis by blast
    qed
  qed
qed

lemma binv_WriteBatch:
  assumes "binv ptrs offs b"
    and w: "WriteBatch ins now nowFn b inserts = Some (b', inserts', res, err)"
  shows "binv ptrs offs b'"
proof -
  from WriteBatch_block [OF w] consider "b' = b"
    | a m m' e where "mutableActiveSegmentWithRLock b = Some a" "mutableSegment a = Some m"
        "seg_InsertBatch ins m (PendingDocs inserts) = (m', e)"
        "b' = writeBatchDeferred now nowFn a m' (storeMutableSegment m' b)"
    by blast
  then show ?thesis
  proof cases
    case 1
    with assms(1) show ?thesis by simp
  next
    case 2
    show ?thesis
    proof (cases "seg_Size m' > defaultMutableSegmentRotationSize \<or>
        now - creationTime a > defaultMutableSegmentRotationAge")
      case True
      then have "b' = triggerRotations (addActiveSegmentWithLock nowFn
          (storeMutableSegment (fst (seg_Seal m')) (storeMutableSegment m' b)))"
        using 2(4) by (simp add: writeBatchDeferred_def)
      moreover have "binv ptrs offs (triggerRotations (addActiveSegmentWithLock nowFn
          (storeMutableSegment (fst (seg_Seal m')) (storeMutableSegment m' b))))"
        by (rule binv_add [OF assms(1)]) (simp_all add: storeMutableSegment_keys)
      ultimately show ?thesis by simp
    next
      case False
      then have "b' = storeMutableSegment m' b" using 2(4) by (simp add: writeBatchDeferred_def)
      moreover have "binv ptrs offs (storeMutableSegment m' b)"
        by (rule binv_store [OF assms(1) 2(1) 2(2) seg_InsertBatch_sealed [OF 2(3)]])
      ultimately show ?thesis by simp
    qed
  qed
qed

lemma sealActiveSegments_keys:
  "sealActiveSegments e xs = Some (xs', e') \<Longrightarrow>
   map ptr xs' = map ptr xs \<and> map astate xs' = map astate xs"
proof (induction xs arbitrary: e xs' e')
  case Nil
  then show ?case by simp
next
  case (Cons seg segs)
  show ?case
  proof (cases "astate seg = mutableActiveSegmentState")
    case True
    with Cons.prems obtain m where m: "mutableSegment seg = Some m"
      by (cases "mutableSegment seg") simp_all
    obtain m1 e1 where s: "seg_Seal m = (m1, e1)" by (cases "seg_Seal m")
    with True m Cons.prems obtain segs' where
      r: "sealActiveSegments (multiErr_Add e e1) segs = Some (segs', e')"
      and x: "xs' = seg\<lparr>mutableSegment := Some m1\<rparr> # segs'"
      by (cases "sealActiveSegments (multiErr_Add e e1) segs") auto
    from Cons.IH [OF r] x show ?thesis by simp
  next
    case False
    with Cons.prems obtain segs' where
      r: "sealActiveSegments e segs = Some (segs', e')" and x: "xs' = seg # segs'"
      by (cases "sealActiveSegments e segs") auto
    from Cons.IH [OF r] x show ?thesis by simp
  qed
qed

lemma binv_Seal:
  assumes "binv ptrs offs b" and s: "Seal b = Some (b', err)"
  shows "binv ptrs offs b'"
proof (cases "state b \<noteq> blockStateOpen")
  case True
  with s assms(1) show ?thesis by (simp add: Seal_def)
next
  case False
  with s obtain xs' e1 where a: "sealActiveSegments [] (activeSegments b) = Some (xs', e1)"
    by (cases "sealActiveSegments [] (activeSegments b)") (auto simp: Seal_def)
  obtain gs e2 where g: "sealGroups e1 (shardRangesSegments b) = (gs, e2)"
    by (cases "sealGroups e1 (shardRangesSegments b)")
  from s False a g have b': "b' = b\<lparr>state := blockStateSealed, activeSegments := xs',
      shardRangesSegments := gs\<rparr>" by (simp add: Seal_def)
  from sealActiveSegments_keys [OF a] show ?thesis
    by (intro binv_keys [OF assms(1)]) (simp_all add: b')
qed

lemma AddResults_frame:
  assumes "AddResults b results = (b', released, err)"
  shows "activeSegments b' = activeSegments b \<and> segmentID b' = segmentID b \<and> state b' = state b"
proof -
  obtain mn mx where mm: "MinMax (Fulfilled results) = (mn, mx)"
    by (cases "MinMax (Fulfilled results)")
  obtain segs e1 where si: "sealIncoming (IsSealedWithRLock b) [] (Segments results) = (segs, e1)"
    by (cases "sealIncoming (IsSealedWithRLock b) [] (Segments results)")
  obtain cl e2 where cs: "closeSegments e1 (concat (map segments (shardRangesSegments b))) = (cl, e2)"
    by (cases "closeSegments e1 (concat (map segments (shardRangesSegments b)))")
  from assms mm si cs show ?thesis
    by (auto simp: AddResults_def Let_def split: if_splits)
qed

lemma binv_AddResults:
  assumes "binv ptrs offs b" and "AddResults b results = (b', released, err)"
  shows "binv ptrs offs b'"
  using AddResults_frame [OF assms(2)] assms(1) by (simp add: binv_def)

lemma binv_EvictActiveSegments:
  assumes "binv ptrs offs b" and e: "EvictActiveSegments b = (b', evicted, err)"
  shows "binv ptrs offs b'"
proof (cases "state b \<noteq> blockStateSealed")
  case True
  with e assms(1) show ?thesis by (simp add: EvictActiveSegments_def Let_def)
next
  case False
  with e have "state b' \<noteq> blockStateOpen \<and> activeSegments b' = [] \<and> segmentID b' = segmentID b"
    by (auto simp: EvictActiveSegments_def Let_def split: prod.splits)
  with assms(1) show ?thesis by (intro binv_empty [of b' b]) simp_all
qed

lemma binv_Close:
  assumes "binv ptrs offs b" and c: "Close b = (b', out, err)"
  shows "binv ptrs offs b'"
proof (cases "state b = blockStateClosed")
  case True
  with c assms(1) show ?thesis by (simp add: Close_def)
next
  case False
  with c have "state b' \<noteq> blockStateOpen \<and> activeSegments b' = [] \<and> segmentID b' = segmentID b"
    by (auto simp: Close_def split: prod.splits)
  with assms(1) show ?thesis by (intro binv_empty [of b' b]) simp_all
qed

lemma selectSegments_Cons:
  assumes "selectSegments acc (seg # segs) = Some (xs', rot)"
  shows "(xs' = seg # segs \<and> activeSegmentsToRotate rot = []) \<or>
     (\<exists>acc' segs' rot0. selectSegments acc' segs = Some (segs', rot0) \<and>
        ((xs' = seg # segs' \<and> activeSegmentsToRotate rot = activeSegmentsToRotate rot0 \<and>
          \<not> (astate seg = mutableActiveSegmentState \<and> \<not> unsealedMutable seg)) \<or>
         (activeSegmentsToRotate rot = ptr seg # activeSegmentsToRotate rot0 \<and>
          \<not> unsealedMutable seg \<and>
          (xs' = seg\<lparr>astate := rotatingActiveSegmentState\<rparr> # segs' \<or>
           xs' = seg # segs' \<and> astate seg = fstActiveSegmentState))))"
proof (cases "acc + a_Size seg \<ge> defaultMutableSegmentRotationMergeSize")
  case True
  with assms show ?thesis by (auto simp: no_rotation_def)
next
  case False
  note nb = this
  show ?thesis
  proof (cases "astate seg")
    case mutableActiveSegmentState
    with assms nb obtain m where m: "mutableSegment seg = Some m"
      by (cases "mutableSegment seg") (simp_all add: Let_def)
    show ?thesis
    proof (cases "seg_sealed m")
      case True
      with assms nb m mutableActiveSegmentState obtain segs' rot0 where
        "selectSegments (acc + a_Size seg) segs = Some (segs', rot0)"
        "xs' = seg\<lparr>astate := rotatingActiveSegmentState\<rparr> # segs'"
        "activeSegmentsToRotate rot = ptr seg # activeSegmentsToRotate rot0"
        by (cases "selectSegments (acc + a_Size seg) segs")
           (auto simp: Let_def seg_IsSealed_def)
      moreover have "\<not> unsealedMutable seg" using m True by (simp add: unsealedMutable_def)
      ultimately show ?thesis by blast
    next
      case False
      with assms nb m mutableActiveSegmentState obtain segs' rot0 where
        "selectSegments acc segs = Some (segs', rot0)" "xs' = seg # segs'" "rot = rot0"
        by (cases "selectSegments acc segs") (auto simp: Let_def seg_IsSealed_def)
      moreover have "unsealedMutable seg"
        using m False mutableActiveSegmentState by (simp add: unsealedMutable_def)
      ultimately show ?thesis by blast
    qed
  next
    case rotatingActiveSegmentState
    with assms nb obtain segs' rot0 where
      "selectSegments acc segs = Some (segs', rot0)" "xs' = seg # segs'" "rot = rot0"
      by (cases "selectSegments acc segs") (auto simp: Let_def)
    with rotatingActiveSegmentState show ?thesis by auto
  next
    case fstActiveSegmentState
    with assms nb obtain segs' rot0 where
      "selectSegments (acc + a_Size seg) segs = Some (segs', rot0)" "xs' = seg # segs'"
      "activeSegmentsToRotate rot = ptr seg # activeSegmentsToRotate rot0"
      by (cases "selectSegments (acc + a_Size seg) segs") (auto simp: Let_def)
    moreover have "\<not> unsealedMutable seg"
      using fstActiveSegmentState by (simp add: unsealedMutable_def)
    ultimately show ?thesis using fstActiveSegmentState by blast
  qed
qed

lemma selectSegments_props:
  "selectSegments acc xs = Some (xs', rot) \<Longrightarrow>
     map ptr xs' = map ptr xs \<and>
     set (activeSegmentsToRotate rot) \<subseteq> ptr ` set xs \<and>
     (list_ex unsealedMutable xs \<longrightarrow> list_ex unsealedMutable xs') \<and>
     (distinct (map ptr xs) \<longrightarrow>
        list_all (\<lambda>a. ptr a \<in> set (activeSegmentsToRotate rot) \<longrightarrow>
                       astate a \<noteq> mutableActiveSegmentState) xs')"
proof (induction xs arbitrary: acc xs' rot)
  case Nil
  then show ?case by (auto simp: no_rotation_def)
next
  case (Cons seg segs)
  from selectSegments_Cons [OF Cons.prems] consider
      (stop) "xs' = seg # segs" "activeSegmentsToRotate rot = []"
    | (skip) acc' segs' rot0 where "selectSegments acc' segs = Some (segs', rot0)"
        "xs' = seg # segs'" "activeSegmentsToRotate rot = activeSegmentsToRotate rot0"
    | (take) acc' segs' rot0 where "selectSegments acc' segs = Some (segs', rot0)"
        "activeSegmentsToRotate rot = ptr seg # activeSegmentsToRotate rot0"
        "\<not> unsealedMutable seg"
        "xs' = seg\<lparr>astate := rotatingActiveSegmentState\<rparr> # segs' \<or>
         xs' = seg # segs' \<and> astate seg = fstActiveSegmentState"
    by blast
  then show ?case
  proof cases
    case stop
    then show ?thesis by (simp add: list_all_iff)
  next
    case skip
    from Cons.IH [OF skip(1)] have
      p: "map ptr segs' = map ptr segs" and
      c: "set (activeSegmentsToRotate rot0) \<subseteq> ptr ` set segs" and
      w: "list_ex unsealedMutable segs \<longrightarrow> list_ex unsealedMutable segs'" and
      d: "distinct (map ptr segs) \<longrightarrow>
        list_all (\<lambda>a. ptr a \<in> set (activeSegmentsToRotate rot0) \<longrightarrow>
                       astate a \<noteq> mutableActiveSegmentState) segs'" by blast+
    have "distinct (map ptr (seg # segs)) \<longrightarrow>
        list_all (\<lambda>a. ptr a \<in> set (activeSegmentsToRotate rot) \<longrightarrow>
                       astate a \<noteq> mutableActiveSegmentState) xs'"
      using skip(2,3) c d by auto
    with skip(2,3) p c w show ?thesis by auto
  next
    case take
    from Cons.IH [OF take(1)] have
      p: "map ptr segs' = map ptr segs" and
      c: "set (activeSegmentsToRotate rot0) \<subseteq> ptr ` set segs" and
      w: "list_ex unsealedMutable segs \<longrightarrow> list_ex unsealedMutable segs'" and
      d: "distinct (map ptr segs) \<longrightarrow>
        list_all (\<lambda>a. ptr a \<in> set (activeSegmentsToRotate rot0) \<longrightarrow>
                       astate a \<noteq> mutableActiveSegmentState) segs'" by blast+
    have same: "ptr ` set segs' = ptr ` set segs" using p by (metis set_map)
    have "distinct (map ptr (seg # segs)) \<longrightarrow>
        list_all (\<lambda>a. ptr a \<in> set (activeSegmentsToRotate rot) \<longrightarrow>
                       astate a \<noteq> mutableActiveSegmentState) xs'"
    proof
      assume dist: "distinct (map ptr (seg # segs))"
      then have nin: "ptr seg \<notin> ptr ` set segs'" using same by simp
      from dist d have rest: "list_all (\<lambda>a. ptr a \<in> set (activeSegmentsToRotate rot0) \<longrightarrow>
                       astate a \<noteq> mutableActiveSegmentState) segs'" by simp
      have "list_all (\<lambda>a. ptr a \<in> set (activeSegmentsToRotate rot) \<longrightarrow>
                       astate a \<noteq> mutableActiveSegmentState) segs'"
        unfolding list_all_iff
      proof (intro ballI impI)
        fix a assume a: "a \<in> set segs'"
          and c: "ptr a \<in> set (activeSegmentsToRotate rot)"
        from a have "ptr a \<in> ptr ` set segs'" by (rule imageI)
        with nin have "ptr a \<noteq> ptr seg" by metis
        with c take(2) have "ptr a \<in> set (activeSegmentsToRotate rot0)" by simp
        with rest a show "astate a \<noteq> mutableActiveSegmentState" by (simp add: list_all_iff)
      qed
      with take(4) show "list_all (\<lambda>a. ptr a \<in> set (activeSegmentsToRotate rot) \<longrightarrow>
                       astate a \<noteq> mutableActiveSegmentState) xs'"
        by auto
    qed
    moreover have "map ptr xs' = map ptr (seg # segs)" using take(4) p by auto
    moreover have "set (activeSegmentsToRotate rot) \<subseteq> ptr ` set (seg # segs)"
      using take(2) c by auto
    moreover have "list_ex unsealedMutable (seg # segs) \<longrightarrow> list_ex unsealedMutable xs'"
      using take(3,4) w by auto
    ultimately show ?thesis by blast
  qed
qed

lemma binv_rotateSelect:
  assumes i: "binv [] [] b" and so: "sortedBySize b xs"
    and r: "rotateSelect xs b = Some (b', rot)"
  shows "binv (activeSegmentsToRotate rot) [] b'"
proof -
  from r obtain xs' where s: "selectSegments 0 xs = Some (xs', rot)"
    and b': "b' = b\<lparr>activeSegments := xs'\<rparr>"
    by (cases "selectSegments 0 xs") (auto simp: rotateSelect_def)
  from so have ms: "mset xs = mset (activeSegments b)" by (simp add: sortedBySize_def)
  then have se: "set xs = set (activeSegments b)" by (rule mset_eq_setD)
  from ms have "mset (map ptr xs) = mset (map ptr (activeSegments b))" by simp
  then have di: "distinct (map ptr xs)"
    using i mset_eq_imp_distinct_iff [of "map ptr xs" "map ptr (activeSegments b)"]
    by (simp add: binv_def)
  from selectSegments_props [OF s] di have
    p: "map ptr xs' = map ptr xs" and
    c: "set (activeSegmentsToRotate rot) \<subseteq> ptr ` set xs" and
    w: "list_ex unsealedMutable xs \<longrightarrow> list_ex unsealedMutable xs'" and
    d: "list_all (\<lambda>a. ptr a \<in> set (activeSegmentsToRotate rot) \<longrightarrow>
                       astate a \<noteq> mutableActiveSegmentState) xs'" by blast+
  have sp: "ptr ` set xs' = ptr ` set (activeSegments b)" using p se by (metis set_map)
  have le: "\<forall>a \<in> set (activeSegments b). ptr a \<le> segmentID b"
    using i by (simp add: binv_def list_all_iff)
  have 1: "state b = blockStateOpen \<longrightarrow> list_ex unsealedMutable xs'"
    using i w se by (simp add: binv_def list_ex_iff)
  have 2: "list_all (\<lambda>a. ptr a \<le> segmentID b) xs'"
    unfolding list_all_iff
  proof
    fix a assume "a \<in> set xs'"
    then have "ptr a \<in> ptr ` set (activeSegments b)" using sp by blast
    then obtain a0 where "a0 \<in> set (activeSegments b)" "ptr a = ptr a0" by blast
    with le show "ptr a \<le> segmentID b" by simp
  qed
  have 3: "distinct (map ptr xs')" using di p by simp
  have 4: "list_all (\<lambda>p. p \<le> segmentID b) (activeSegmentsToRotate rot)"
    using c se le by (auto simp: list_all_iff)
  show ?thesis using 1 2 3 4 d by (simp add: binv_def b')
qed

lemma binv_mint:
  assumes "binv ptrs [] b"
  shows "binv ptrs [segmentID b + 1] (b\<lparr>segmentID := segmentID b + 1\<rparr>)"
  using assms by (fastforce simp: binv_def list_all_iff)

lemma binv_rotateSwap:
  assumes "binv (activeSegmentsToRotate rot) [postingsOffset] b"
  shows "binv [] [] (rotateSwap nowFn rot postingsOffset b)"
proof -
  let ?keep = "filter (\<lambda>seg. ptr seg \<notin> set (activeSegmentsToRotate rot)) (activeSegments b)"
  have w: "state b = blockStateOpen \<longrightarrow> list_ex unsealedMutable ?keep"
  proof
    assume "state b = blockStateOpen"
    with assms obtain a where a: "a \<in> set (activeSegments b)" and u: "unsealedMutable a"
      by (auto simp: binv_def list_ex_iff)
    from u have "astate a = mutableActiveSegmentState" by (simp add: unsealedMutable_def)
    with assms a have "ptr a \<notin> set (activeSegmentsToRotate rot)"
      by (auto simp: binv_def list_all_iff)
    with a u show "list_ex unsealedMutable ?keep" by (auto simp: list_ex_iff)
  qed
  have d: "distinct (map ptr ?keep)" using assms by (simp add: binv_def distinct_map_filter)
  have n: "postingsOffset \<notin> ptr ` set ?keep" and le: "postingsOffset \<le> segmentID b"
    using assms by (auto simp: binv_def)
  have l: "list_all (\<lambda>a. ptr a \<le> segmentID b) ?keep"
    using assms by (auto simp: binv_def list_all_iff)
  show ?thesis
    using w d n le l by (auto simp: binv_def rotateSwap_def list_all_iff)
qed

lemma inv_step: "step s s' \<Longrightarrow> inv s \<Longrightarrow> inv s'"
proof (induction rule: step.induct)
  case (step_WriteBatch ins now nowFn s inserts b' inserts' res err)
  then show ?case using binv_WriteBatch by (simp add: inv_def)
next
  case (step_AddResults s results b' released err)
  then show ?case using binv_AddResults by (simp add: inv_def)
next
  case (step_Seal s b' err)
  then show ?case using binv_Seal by (simp add: inv_def)
next
  case (step_EvictActiveSegments s b' evicted err)
  then show ?case using binv_EvictActiveSegments by (simp add: inv_def)
next
  case (step_Close s b' out err)
  then show ?case using binv_Close by (simp add: inv_def)
next
  case (step_rotate_signal s)
  then have "binv [] [] (blk s)" by (simp add: inv_def)
  then have "binv [] [] ((blk s)\<lparr>rotateCh := rotateCh (blk s) - 1\<rparr>)"
    by (simp add: binv_def)
  then show ?case by (simp add: inv_def)
next
  case (step_rotate_select s xs b' rot)
  then have "binv [] [] (blk s)" by (simp add: inv_def)
  from binv_rotateSelect [OF this step_rotate_select(2,3)] show ?case by (simp add: inv_def)
next
  case (step_rotate_early_exit s rot)
  then have "binv (activeSegmentsToRotate rot) [] (blk s)" by (simp add: inv_def)
  from binv_drop [OF this] show ?case by (simp add: inv_def)
next
  case (step_rotate_mint s rot)
  then have "binv (activeSegmentsToRotate rot) [] (blk s)" by (simp add: inv_def)
  from binv_mint [OF this] show ?case by (simp add: inv_def)
next
  case (step_rotate_failed s rot postingsOffset)
  then have "binv (activeSegmentsToRotate rot) [postingsOffset] (blk s)" by (simp add: inv_def)
  from binv_drop [OF this] show ?case by (simp add: inv_def)
next
  case (step_rotate_swap s rot postingsOffset nowFn)
  then have "binv (activeSegmentsToRotate rot) [postingsOffset] (blk s)" by (simp add: inv_def)
  from binv_rotateSwap [OF this] show ?case by (simp add: inv_def)
qed

lemma reachable_inv: "reachable s \<Longrightarrow> inv s"
proof (induction rule: reachable.induct)
  case (reachable_NewBlock nowFn start bsize)
  show ?case by (simp add: inv_def binv_NewBlock)
next
  case (reachable_step s s')
  then show ?case using inv_step by blast
qed

text \<open>
  Claim C2, as amended. In every state the block with its rotator can reach from
  NewBlock, by writes, bootstraps, seals, evictions, closes and the steps of the
  rotation in any interleaving, an Open block has at least one active segment in the
  Mutable state, and one of them holds a segment that is not sealed.
\<close>

theorem open_block_has_mutable_segment:
  assumes "reachable s" and "state (blk s) = blockStateOpen"
  shows "length (filter (\<lambda>a. astate a = mutableActiveSegmentState) (activeSegments (blk s))) \<ge> 1 \<and>
         list_ex unsealedMutable (activeSegments (blk s))"
proof -
  from reachable_inv [OF assms(1)] assms(2)
  have w: "list_ex unsealedMutable (activeSegments (blk s))"
    by (simp add: inv_def binv_def)
  then obtain a where a: "a \<in> set (activeSegments (blk s))" and "unsealedMutable a"
    by (auto simp: list_ex_iff)
  then have "a \<in> set (filter (\<lambda>a. astate a = mutableActiveSegmentState) (activeSegments (blk s)))"
    by (simp add: unsealedMutable_def)
  then have "filter (\<lambda>a. astate a = mutableActiveSegmentState) (activeSegments (blk s)) \<noteq> []"
    by (metis empty_iff empty_set)
  then have "length (filter (\<lambda>a. astate a = mutableActiveSegmentState) (activeSegments (blk s))) \<ge> 1"
    by (simp add: Suc_le_eq)
  with w show ?thesis by simp
qed

lemma rotated_block_example_write:
  "WriteBatch ins_all 40000000000 50 (NewBlock 0 1000 3600) [(1, Unmarked)] =
     Some (rotated_block_example, [(1, MarkedSuccess)], \<lparr>NumSuccess = 1, NumError = 0\<rparr>, None)"
  by (simp add: rotated_block_example_def NewBlock_def addActiveSegmentWithLock_def Let_def
      NewSegment_def WriteBatch_def mutableActiveSegmentWithRLock_def seg_InsertBatch_def
      ins_all_def batch_defs storeMutableSegment_def writeBatchDeferred_def seg_Size_def
      defaultMutableSegmentRotationSize_def defaultMutableSegmentRotationAge_def
      MarkUnmarkedEntriesSuccess_def Len_def seg_Seal_def triggerRotations_def)

lemma rotated_block_example_reachable:
  "reachable \<lparr>blk = rotated_block_example, rotator = Idle\<rparr>"
proof -
  let ?s = "\<lparr>blk = NewBlock 0 1000 3600, rotator = Idle\<rparr>"
  have r: "reachable ?s" by (rule reachable_NewBlock)
  have "WriteBatch ins_all 40000000000 50 (blk ?s) [(1, Unmarked)] =
     Some (rotated_block_example, [(1, MarkedSuccess)], \<lparr>NumSuccess = 1, NumError = 0\<rparr>, None)"
    using rotated_block_example_write by simp
  then have "step ?s (?s\<lparr>blk := rotated_block_example\<rparr>)" by (rule step_WriteBatch)
  with r have "reachable (?s\<lparr>blk := rotated_block_example\<rparr>)" by (rule reachable_step)
  then show ?thesis by simp
qed

theorem open_block_has_mutable_segment_witness:
  "reachable \<lparr>blk = rotated_block_example, rotator = Idle\<rparr> \<and>
   state (blk \<lparr>blk = rotated_block_example, rotator = Idle\<rparr>) = blockStateOpen \<and>
   length (filter (\<lambda>a. astate a = mutableActiveSegmentState)
             (activeSegments (blk \<lparr>blk = rotated_block_example, rotator = Idle\<rparr>))) \<ge> 1 \<and>
   list_ex unsealedMutable (activeSegments (blk \<lparr>blk = rotated_block_example, rotator = Idle\<rparr>))"
proof -
  have o: "state (blk \<lparr>blk = rotated_block_example, rotator = Idle\<rparr>) = blockStateOpen"
    by (simp add: rotated_block_example_def)
  from open_block_has_mutable_segment [OF rotated_block_example_reachable o]
    rotated_block_example_reachable o
  show ?thesis by blast
qed

text \<open>
  Claim C2 as stated ("exactly one") fails after a seal-trigger: the write seals the
  segment it wrote to and puts a fresh one in front, and the sealed one keeps the
  Mutable state until a rotation marks it Rotating. After one write older than the
  rotation age, a fresh block is Open with two active segments in the Mutable state.
\<close>

theorem exactly_one_mutable_counterexample:
  "reachable \<lparr>blk = rotated_block_example, rotator = Idle\<rparr> \<and>
   state rotated_block_example = blockStateOpen \<and>
   map astate (activeSegments rotated_block_example) =
     [mutableActiveSegmentState, mutableActiveSegmentState] \<and>
   length (filter (\<lambda>a. astate a = mutableActiveSegmentState)
             (activeSegments rotated_block_example)) = 2"
  using rotated_block_example_reachable by (simp add: rotated_block_example_def)



end
